theory Spec2Isabelle
  imports Main
begin

section \<open>Values exchanged with the linter\<close>

text \<open>
  The linter is the module \<open>solium.js\<close> (the version with \<open>lintAndFix\<close>): the functions
  \<open>reset\<close>, \<open>lint\<close>, \<open>lintAndFix\<close>, \<open>report\<close> and \<open>reportInternal\<close> over the module
  variables \<open>messages\<close>, \<open>sourceCodeText\<close> and \<open>currentConfig\<close>.  JavaScript is
  dynamically typed; a field whose dynamic type the code tests is a \<open>jsval\<close>, every
  other field has the type the code expects of it.  The line and the column of a node
  are computed from the source text and are natural numbers; the line and the column a
  rule supplies in \<open>location\<close> are stored as given and are integers, the negative ones
  included.  An exception is a value of \<open>error\<close>; a function that may throw returns
  \<open>error option\<close> (or a sum) next to the state it leaves behind, because a JavaScript
  exception does not undo the assignments made before it.
\<close>

datatype jsval = JUndefined | JNull | JBool bool | JNum int | JStr string | JObject

datatype error = Error string | TypeError string

text \<open>
  The \<open>sourceCode\<close> argument of \<open>lint\<close>: a string, a \<open>Buffer\<close> (its bytes; a string is
  modelled by its bytes too, so \<open>toString\<close> keeps them), \<open>null\<close>, or any other value.
\<close>

datatype source_arg = SourceString string | SourceBuffer string | SourceNull | SourceOther

text \<open>
  A node of the tree the parser returns.  \<open>nline\<close> and \<open>ncolumn\<close> are what
  \<open>astUtils.getLine\<close> and \<open>astUtils.getColumn\<close> compute for the node; \<open>nparent\<close> is the
  property \<open>parent\<close>, which the parser does not set.
\<close>

datatype node = Node (ntype: string) (nline: nat) (ncolumn: nat) (nparent: "node option")
  (nchildren: "node list")

record edit =
  startOffset :: nat
  endOffset :: nat
  replacementText :: string

record rule_meta =
  deprecated :: bool
  replacedBy :: "string list option"
  schema :: "jsval list"
  fixable :: "string option"

text \<open>
  The property \<open>fix\<close> of a reported issue: falsy, a truthy value that is no function, or
  a function from the fixer (built from \<open>meta.fixable\<close>) to the edits.
\<close>

datatype fixval = FixAbsent | FixNotAFunction | FixFunction "string \<Rightarrow> edit list"

record location =
  loc_line :: "int option"
  loc_column :: "int option"

text \<open>
  The object passed to \<open>report\<close> and \<open>reportInternal\<close>.  \<open>i_node\<close> is \<open>None\<close> when
  \<open>astUtils.isASTNode\<close> rejects the property, \<open>i_location\<close> is \<open>None\<close> when
  \<open>jsUtils.isStrictlyObject\<close> rejects it.
\<close>

record issue =
  i_ruleId :: "string option"
  i_ruleName :: "string option"
  i_type :: "string option"
  i_ruleMeta :: "rule_meta option"
  i_node :: "node option"
  i_message :: jsval
  i_location :: "location option"
  i_fix :: fixval

datatype report_arg = NotAnObject | IssueObject issue

text \<open>An element of the array \<open>messages\<close>.\<close>

record message =
  m_ruleName :: "string option"
  m_type :: "string option"
  m_node :: "node option"
  m_message :: jsval
  m_line :: int
  m_column :: int
  m_fix :: "edit list option"
  m_internal :: bool

section \<open>Rules, listeners and the configuration\<close>

record emitted =
  em_node :: node
  em_exit :: bool

text \<open>
  What a handler does when it is notified: it calls \<open>context.report\<close> or throws.  A
  handler is a closure, so what it does may depend on every notification of the
  traversal so far; it is a function of that history, the current notification last.
\<close>

datatype call = CallReport report_arg | CallThrow string

type_synonym handler = "emitted list \<Rightarrow> call list"

record rule_config =
  rc_type :: "string option"
  rc_options :: "jsval list option"

record rule_context =
  ctx_name :: string
  ctx_config :: rule_config
  ctx_meta :: rule_meta
  ctx_source :: string

record listener =
  l_event :: string
  l_context :: rule_context
  l_handler :: handler

text \<open>
  A rule module: its meta and its \<open>verify\<close>, which is given the context and subscribes
  handlers to node types, or throws (and is then taken to have subscribed none).
\<close>

record rule =
  meta :: rule_meta
  verify :: "rule_context \<Rightarrow> error + (string \<times> handler) list"

datatype rules_field = NoRules | UserRules "(string \<times> jsval) list"
  | LoadedRules "(string \<times> rule_config) list"

record cfg_options =
  returnInternalIssues :: bool

record config =
  cfg_rules :: rules_field
  cfg_options :: "cfg_options option"
  custom_rules_filename :: "string option"

text \<open>
  The modules \<open>lint\<close> requires and this development does not contain: the
  configuration inspector, the rule loader, the rule inspector and the parser.
\<close>

record env =
  isValid :: "config \<Rightarrow> bool"
  isFormatDeprecated :: "config \<Rightarrow> bool"
  rules_load :: "config \<Rightarrow> error + (string \<times> rule_config) list"
  rules_loadUsingDeprecatedConfigFormat ::
    "rules_field \<Rightarrow> string option \<Rightarrow> error + (string \<times> rule_config) list"
  rules_get :: "string \<Rightarrow> rule option"
  isAValidRuleObject :: "rule \<Rightarrow> bool"
  areValidOptionsPassed :: "jsval list \<Rightarrow> jsval list \<Rightarrow> bool"
  solidityParser_parse :: "string \<Rightarrow> string + node"

text \<open>
  The state: the three module variables, the listeners of the emitter \<open>Solium\<close>, and
  the store of configuration objects.  \<open>currentConfig\<close> and the \<open>config\<close> argument of
  \<open>lint\<close> are references into the store (an index); \<open>None\<close> is \<open>null\<close>.
\<close>

record world =
  messages :: "message list"
  sourceCodeText :: string
  currentConfig :: "nat option"
  listeners :: "listener list"
  heap :: "config list"

definition initial :: world where
  "initial = \<lparr>messages = [], sourceCodeText = [], currentConfig = None, listeners = [],
     heap = []\<rparr>"

definition lookup :: "'a list \<Rightarrow> nat \<Rightarrow> 'a option" where
  "lookup xs a = (if a < length xs then Some (xs ! a) else None)"

definition andThen ::
  "error option \<times> world \<Rightarrow> (world \<Rightarrow> error option \<times> world) \<Rightarrow> error option \<times> world" where
  "andThen r f = (case r of (None, w) \<Rightarrow> f w | (Some e, w) \<Rightarrow> (Some e, w))"

fun forEach :: "('a \<Rightarrow> world \<Rightarrow> error option \<times> world) \<Rightarrow> 'a list \<Rightarrow> world \<Rightarrow> error option \<times> world" where
  "forEach f [] w = (None, w)"
| "forEach f (x # xs) w = andThen (f x w) (forEach f xs)"

section \<open>reset, reportInternal and report\<close>

text \<open>
  \<open>reset\<close> (lines 34 to 39) removes the listeners and reinitialises the three
  variables; \<open>currentConfig = {}\<close> makes a new, empty object.
\<close>

definition emptyObject :: config where
  "emptyObject = \<lparr>cfg_rules = NoRules, cfg_options = None, custom_rules_filename = None\<rparr>"

definition reset :: "world \<Rightarrow> world" where
  "reset w = w\<lparr>listeners := [], messages := [], sourceCodeText := [],
     currentConfig := Some (length (heap w)), heap := heap w @ [emptyObject]\<rparr>"

text \<open>
  \<open>reportInternal\<close> (lines 244 to 251) pushes
  \<open>Object.assign (issue, { internal: true, line: -1, column: -1 })\<close>: the issue itself
  with the three properties set.  Its \<open>fix\<close>, if it has one, stays a callback and is no
  edit list.
\<close>

definition internalMessage :: "issue \<Rightarrow> message" where
  "internalMessage issue = \<lparr>m_ruleName = i_ruleName issue, m_type = i_type issue,
     m_node = i_node issue, m_message = i_message issue, m_line = - 1, m_column = - 1,
     m_fix = None, m_internal = True\<rparr>"

fun reportInternal :: "report_arg \<Rightarrow> world \<Rightarrow> error option \<times> world" where
  "reportInternal NotAnObject w = (Some (Error ''Invalid error object''), w)"
| "reportInternal (IssueObject issue) w =
     (None, w\<lparr>messages := messages w @ [internalMessage issue]\<rparr>)"

text \<open>
  \<open>report\<close> (lines 190 to 238).  \<open>jsString\<close> is the string a property contributes to a
  concatenation, "undefined" when the property is absent.  The line of the message is
  \<open>error.location.line || astUtils.getLine (error.node)\<close>, its column
  \<open>(error.location.column === 0) ? 0 : error.location.column || astUtils.getColumn
  (error.node)\<close>: a line or column the rule supplies is stored whatever its sign, and
  only an absent one or (for the line) 0 is replaced by the position of the node.
\<close>

definition jsString :: "string option \<Rightarrow> string" where
  "jsString v = (case v of None \<Rightarrow> ''undefined'' | Some s \<Rightarrow> s)"

text \<open>An optional string is truthy when it is present and not empty.\<close>

definition truthy :: "string option \<Rightarrow> bool" where
  "truthy v = (case v of None \<Rightarrow> False | Some s \<Rightarrow> s \<noteq> [])"

definition quoted :: "string \<Rightarrow> string" where
  "quoted s = [CHR 0x22] @ s @ [CHR 0x22]"

definition isNonEmptyString :: "jsval \<Rightarrow> bool" where
  "isNonEmptyString v = (case v of JStr s \<Rightarrow> s \<noteq> [] | _ \<Rightarrow> False)"

definition getLineOf :: "location option \<Rightarrow> node \<Rightarrow> int" where
  "getLineOf loc n = (case loc of None \<Rightarrow> int (nline n)
     | Some l \<Rightarrow> (case loc_line l of None \<Rightarrow> int (nline n)
         | Some k \<Rightarrow> if k = 0 then int (nline n) else k))"

definition getColumnOf :: "location option \<Rightarrow> node \<Rightarrow> int" where
  "getColumnOf loc n = (case loc of None \<Rightarrow> int (ncolumn n)
     | Some l \<Rightarrow> (case loc_column l of None \<Rightarrow> int (ncolumn n)
         | Some k \<Rightarrow> if k = 0 then 0 else k))"

definition warningIssue :: "string \<Rightarrow> issue" where
  "warningIssue text = \<lparr>i_ruleId = None, i_ruleName = None, i_type = Some ''warning'',
     i_ruleMeta = None, i_node = None, i_message = JStr text, i_location = None,
     i_fix = FixAbsent\<rparr>"

definition fixIgnoredText :: "string option \<Rightarrow> string" where
  "fixIgnoredText name = ''[WARNING] The fixes supplied by rule '' @ quoted (jsString name)
     @ '' will be ignored since its '' @ quoted ''meta'' @ '' doesn't contain the ''
     @ quoted ''fixable'' @ '' property.''"

definition fixNotFunctionText :: "string option \<Rightarrow> jsval \<Rightarrow> string" where
  "fixNotFunctionText name msg = ''Rule '' @ quoted (jsString name) @ '': Attribute ''
     @ quoted ''fix'' @ '' (reported as part of the error ''
     @ quoted (case msg of JStr s \<Rightarrow> s | _ \<Rightarrow> []) @ '') must be a function.''"

definition reportedMessage :: "issue \<Rightarrow> node \<Rightarrow> message" where
  "reportedMessage e n = \<lparr>m_ruleName = i_ruleName e, m_type = i_type e, m_node = Some n,
     m_message = i_message e, m_line = getLineOf (i_location e) n,
     m_column = getColumnOf (i_location e) n, m_fix = None, m_internal = False\<rparr>"

definition push :: "message \<Rightarrow> world \<Rightarrow> error option \<times> world" where
  "push m w = (None, w\<lparr>messages := messages w @ [m]\<rparr>)"

fun report :: "report_arg \<Rightarrow> world \<Rightarrow> error option \<times> world" where
  "report NotAnObject w = (Some (Error ''Invalid error object''), w)"
| "report (IssueObject e) w =
     (case i_node e of
        None \<Rightarrow> (Some (Error (''Rule '' @ jsString (i_ruleId e)
                  @ '' does not provide a valid AST node'')), w)
      | Some n \<Rightarrow>
          if \<not> isNonEmptyString (i_message e)
          then (Some (Error (''Rule '' @ jsString (i_ruleId e)
                  @ '' flags a node but doesn't provide an error description'')), w)
          else (case i_fix e of
             FixAbsent \<Rightarrow> push (reportedMessage e n) w
           | fx \<Rightarrow> (case i_ruleMeta e of
                None \<Rightarrow> (Some (TypeError ''Cannot read property fixable of undefined''), w)
              | Some rm \<Rightarrow>
                  if \<not> truthy (fixable rm)
                  then andThen
                     (reportInternal (IssueObject (warningIssue (fixIgnoredText (i_ruleName e)))) w)
                     (push (reportedMessage e n))
                  else (case fx of
                      FixFunction f \<Rightarrow>
                        push ((reportedMessage e n)\<lparr>m_fix := Some (f (jsString (fixable rm)))\<rparr>) w
                    | _ \<Rightarrow> (Some (Error (fixNotFunctionText (i_ruleName e) (i_message e))), w)))))"

section \<open>Rule contexts, the emitter and the traversal\<close>

text \<open>
  Modelled from the spec: \<open>RuleContext.report\<close> (rule-context.js is not among the
  sources), which "validates and forwards to \<open>LintSession.report\<close>, resolving
  \<open>ruleName\<close>/\<open>severity\<close> from the bound rule"; the rule's meta is passed on as the
  property \<open>ruleMeta\<close> that \<open>report\<close> reads.
\<close>

definition contextReport :: "rule_context \<Rightarrow> report_arg \<Rightarrow> world \<Rightarrow> error option \<times> world" where
  "contextReport ctx arg w = (case arg of
       NotAnObject \<Rightarrow> report NotAnObject w
     | IssueObject e \<Rightarrow> report (IssueObject (e\<lparr>i_ruleName := Some (ctx_name ctx),
         i_ruleMeta := Some (ctx_meta ctx), i_type := rc_type (ctx_config ctx)\<rparr>)) w)"

definition perform :: "rule_context \<Rightarrow> call \<Rightarrow> world \<Rightarrow> error option \<times> world" where
  "perform ctx c w = (case c of CallReport arg \<Rightarrow> contextReport ctx arg w
     | CallThrow text \<Rightarrow> (Some (Error text), w))"

definition notify :: "emitted list \<Rightarrow> listener \<Rightarrow> world \<Rightarrow> error option \<times> world" where
  "notify history l w = forEach (perform (l_context l)) (l_handler l history) w"

text \<open>
  Modelled from the spec: \<open>EventGenerator.enterNode\<close> and \<open>leaveNode\<close>
  (node-event-generator.js is not among the sources), which "invoke every handler
  registered for the node's type tag with \<open>{node, exit}\<close>", in insertion order.
\<close>

definition emit :: "emitted list \<Rightarrow> emitted \<Rightarrow> world \<Rightarrow> error option \<times> world" where
  "emit history ev w =
     forEach (notify (history @ [ev]))
       (filter (\<lambda>l. l_event l = ntype (em_node ev)) (listeners w)) w"

text \<open>
  The visitor \<open>lint\<close> passes to \<open>solExplore.traverse\<close> (lines 130 to 140).  On
  entering a node it assigns \<open>node.parent = parent\<close>, notifies the listeners and deletes
  \<open>node.parent\<close>; on leaving it notifies the listeners.  \<open>traverse\<close> lists the
  notifications of the depth-first walk (children left to right), each with the node as
  it is when the listeners see it; the children of a node value are the nodes as parsed.
\<close>

definition setParent :: "node \<Rightarrow> node option \<Rightarrow> node" where
  "setParent n p = Node (ntype n) (nline n) (ncolumn n) p (nchildren n)"

definition deleteParent :: "node \<Rightarrow> node" where
  "deleteParent n = Node (ntype n) (nline n) (ncolumn n) None (nchildren n)"

fun traverse :: "node option \<Rightarrow> node \<Rightarrow> emitted list" where
  "traverse parent (Node t l c p ks) =
     \<lparr>em_node = setParent (Node t l c p ks) parent, em_exit = False\<rparr>
     # concat (map (traverse (Some (deleteParent (Node t l c p ks)))) ks)
     @ [\<lparr>em_node = deleteParent (Node t l c p ks), em_exit = True\<rparr>]"

text \<open>
  A message holds its node by reference (\<open>node: error.node\<close>, line 213), so the
  assignment and the deletion of \<open>node.parent\<close> show in every message of the buffer that
  refers to the node.  Nodes are values here: two values that differ in \<open>parent\<close> at
  most stand for the same object, and \<open>seenAs n\<close> gives every message that refers to
  the object of \<open>n\<close> the node as it now is.  \<open>visit\<close> is the visitor at one
  notification: for an entry the assignment, the listeners, and the deletion, which is
  not reached when a listener throws.
\<close>

definition sameObject :: "node \<Rightarrow> node \<Rightarrow> bool" where
  "sameObject a b = (deleteParent a = deleteParent b)"

definition seenAs :: "node \<Rightarrow> world \<Rightarrow> world" where
  "seenAs n w = w\<lparr>messages := map (\<lambda>m. case m_node m of None \<Rightarrow> m
       | Some k \<Rightarrow> if sameObject k n then m\<lparr>m_node := Some n\<rparr> else m) (messages w)\<rparr>"

definition visit :: "emitted list \<Rightarrow> emitted \<Rightarrow> world \<Rightarrow> error option \<times> world" where
  "visit history ev w =
     (if em_exit ev then emit history ev w
      else andThen (emit history ev (seenAs (em_node ev) w))
             (\<lambda>w'. (None, seenAs (deleteParent (em_node ev)) w')))"

fun runTraversal :: "emitted list \<Rightarrow> emitted list \<Rightarrow> world \<Rightarrow> error option \<times> world" where
  "runTraversal history [] w = (None, w)"
| "runTraversal history (ev # evs) w =
     andThen (visit history ev w) (runTraversal (history @ [ev]) evs)"

section \<open>lint\<close>

text \<open>
  \<open>messages.sort (compare)\<close>: \<open>Array.prototype.sort\<close> with a comparison function, taken
  as the stable sort it is specified to be; \<open>sortBy\<close> is insertion sort, \<open>le a b\<close>
  standing for \<open>compare (a, b) <= 0\<close>.
\<close>

fun insertBy :: "('a \<Rightarrow> 'a \<Rightarrow> bool) \<Rightarrow> 'a \<Rightarrow> 'a list \<Rightarrow> 'a list" where
  "insertBy le x [] = [x]"
| "insertBy le x (y # ys) = (if le x y then x # y # ys else y # insertBy le x ys)"

definition sortBy :: "('a \<Rightarrow> 'a \<Rightarrow> bool) \<Rightarrow> 'a list \<Rightarrow> 'a list" where
  "sortBy le xs = foldr (insertBy le) xs []"

definition compareMessages :: "message \<Rightarrow> message \<Rightarrow> int" where
  "compareMessages a b = (let lineDiff = m_line a - m_line b
     in if lineDiff \<noteq> 0 then lineDiff else m_column a - m_column b)"

text \<open>
  Reading and writing the object \<open>currentConfig\<close> refers to.  Reading through a
  reference that is \<open>null\<close> throws a \<open>TypeError\<close>.
\<close>

definition readConfig :: "world \<Rightarrow> config option" where
  "readConfig w = (case currentConfig w of None \<Rightarrow> None | Some a \<Rightarrow> lookup (heap w) a)"

definition writeConfig :: "(config \<Rightarrow> config) \<Rightarrow> world \<Rightarrow> world" where
  "writeConfig f w = (case currentConfig w of None \<Rightarrow> w
     | Some a \<Rightarrow> (case lookup (heap w) a of None \<Rightarrow> w
         | Some c \<Rightarrow> w\<lparr>heap := (heap w)[a := f c]\<rparr>))"

definition nullConfig :: error where
  "nullConfig = TypeError ''Cannot read property of undefined''"

text \<open>
  Lines 71 to 88: the rules are loaded, by one of two loaders, and stored in
  \<open>currentConfig.rules\<close>; for a configuration in the deprecated format one or two
  notices are reported first.
\<close>

definition deprecatedFormatText :: string where
  "deprecatedFormatText = ''[DEPRECATED] You are using a deprecated soliumrc configuration format. Please see the documentation to migrate from Solium v0 to v1.''"

definition deprecatedCrfText :: "string \<Rightarrow> string" where
  "deprecatedCrfText crf = ''[DEPRECATED] Attribute '' @ quoted ''custom-rules-filename''
     @ '' is now deprecated. Rules from '' @ crf
     @ '' were not loaded. Solium v1 supports plugins. Please check documentation.''"

definition storeRules ::
  "error + (string \<times> rule_config) list \<Rightarrow> world \<Rightarrow> error option \<times> world" where
  "storeRules result w = (case result of Inl e \<Rightarrow> (Some e, w)
     | Inr rs \<Rightarrow> (None, writeConfig (\<lambda>c. c\<lparr>cfg_rules := LoadedRules rs\<rparr>) w))"

definition loadRules :: "env \<Rightarrow> world \<Rightarrow> error option \<times> world" where
  "loadRules env w = (case readConfig w of None \<Rightarrow> (Some nullConfig, w)
     | Some cfg \<Rightarrow>
         if isFormatDeprecated env cfg
         then (let crf = custom_rules_filename cfg in
           andThen (reportInternal (IssueObject (warningIssue deprecatedFormatText)) w)
             (\<lambda>w1. andThen
                (if truthy crf
                 then reportInternal (IssueObject (warningIssue (deprecatedCrfText (jsString crf)))) w1
                 else (None, w1))
                (storeRules (rules_loadUsingDeprecatedConfigFormat env (cfg_rules cfg) crf))))
         else storeRules (rules_load env cfg) w)"

text \<open>
  Lines 90 to 117: the body of the loop over \<open>Object.keys (currentConfig.rules)\<close>, and
  the loop.
\<close>

definition invalidRuleText :: "string \<Rightarrow> string" where
  "invalidRuleText name = ''A valid definition for rule '' @ [CHR 0x27] @ name @ [CHR 0x27]
     @ '' was not provided.''"

definition invalidOptionsText :: "string \<Rightarrow> string" where
  "invalidOptionsText name = ''Invalid arguments were passed for rule '' @ quoted name @ ''.''"

fun joinNames :: "string list \<Rightarrow> string" where
  "joinNames [] = []"
| "joinNames [n] = quoted n"
| "joinNames (n # ns) = quoted n @ '', '' @ joinNames ns"

definition deprecatedRuleText :: "string \<Rightarrow> rule_meta \<Rightarrow> string" where
  "deprecatedRuleText name rm = ''[DEPRECATED] Rule '' @ quoted name @ '' is deprecated.''
     @ (case replacedBy rm of None \<Rightarrow> []
        | Some ns \<Rightarrow> '' Please use '' @ joinNames ns @ '' instead.'')"

definition subscribe :: "rule_context \<Rightarrow> (string \<times> handler) list \<Rightarrow> world \<Rightarrow> world" where
  "subscribe ctx subs w = w\<lparr>listeners := listeners w
     @ map (\<lambda>sub. \<lparr>l_event = fst sub, l_context = ctx, l_handler = snd sub\<rparr>) subs\<rparr>"

definition configureRule :: "env \<Rightarrow> string \<times> rule_config \<Rightarrow> world \<Rightarrow> error option \<times> world" where
  "configureRule env entry w = (let name = fst entry; currentRuleConfig = snd entry in
     case rules_get env name of
       None \<Rightarrow> (Some (Error (invalidRuleText name)), w)
     | Some r \<Rightarrow>
         if \<not> isAValidRuleObject env r then (Some (Error (invalidRuleText name)), w)
         else if (case rc_options currentRuleConfig of None \<Rightarrow> False
                  | Some opts \<Rightarrow> \<not> areValidOptionsPassed env opts (schema (meta r)))
         then (Some (Error (invalidOptionsText name)), w)
         else andThen
           (if deprecated (meta r)
            then reportInternal (IssueObject (warningIssue (deprecatedRuleText name (meta r)))) w
            else (None, w))
           (\<lambda>w1. let ctx = \<lparr>ctx_name = name, ctx_config = currentRuleConfig,
                  ctx_meta = meta r, ctx_source = sourceCodeText w1\<rparr>
              in case verify r ctx of Inl e \<Rightarrow> (Some e, w1)
                 | Inr subs \<Rightarrow> (None, subscribe ctx subs w1)))"

definition configureRules :: "env \<Rightarrow> world \<Rightarrow> error option \<times> world" where
  "configureRules env w = (case readConfig w of None \<Rightarrow> (Some nullConfig, w)
     | Some cfg \<Rightarrow> (case cfg_rules cfg of
          LoadedRules rs \<Rightarrow> forEach (configureRule env) rs w
        | _ \<Rightarrow> (Some nullConfig, w)))"

text \<open>
  Lines 119 to 140: the source is parsed and the tree traversed.  Lines 142 to 160: the
  internal messages are dropped unless the configuration asks for them, the messages
  are sorted and returned, and \<open>messages\<close> is emptied.
\<close>

definition parseText :: string where
  "parseText = ''An error occured while parsing the source code: ''"

definition parseAndTraverse :: "env \<Rightarrow> string \<Rightarrow> world \<Rightarrow> error option \<times> world" where
  "parseAndTraverse env sourceCode w = (case solidityParser_parse env sourceCode of
       Inl text \<Rightarrow> (Some (Error (parseText @ text)), w)
     | Inr AST \<Rightarrow> runTraversal [] (traverse None AST) w)"

definition collect :: "world \<Rightarrow> (error + message list) \<times> world" where
  "collect w = (case readConfig w of None \<Rightarrow> (Inl nullConfig, w)
     | Some cfg \<Rightarrow> (case cfg_options cfg of None \<Rightarrow> (Inl nullConfig, w)
        | Some opts \<Rightarrow>
            (let kept = (if \<not> returnInternalIssues opts
                         then filter (\<lambda>msg. \<not> m_internal msg) (messages w) else messages w);
                 errorObjects = sortBy (\<lambda>a b. compareMessages a b \<le> 0) kept
             in (Inr errorObjects, w\<lparr>messages := []\<rparr>))))"

text \<open>
  Lines 64 to 69 of \<open>lint\<close>: the reset unless \<open>noReset\<close>, then
  \<open>sourceCodeText = sourceCode\<close>, the deep copy of the configuration (a new object of
  the store, equal to the one copied) and \<open>currentConfig.options =
  currentConfig.options || {}\<close>.  \<open>config\<close> is in the store when \<open>prepare\<close> is called.
\<close>

definition ensureOptions :: "config \<Rightarrow> config" where
  "ensureOptions c = c\<lparr>cfg_options :=
     (case cfg_options c of None \<Rightarrow> Some \<lparr>returnInternalIssues = False\<rparr>
      | Some opts \<Rightarrow> Some opts)\<rparr>"

definition prepare :: "string \<Rightarrow> nat \<Rightarrow> bool \<Rightarrow> world \<Rightarrow> world" where
  "prepare sourceCode config noReset w =
     (let w1 = (if noReset then w else reset w);
          w2 = w1\<lparr>sourceCodeText := sourceCode\<rparr>;
          w3 = w2\<lparr>currentConfig := Some (length (heap w2)),
                 heap := heap w2 @ [heap w2 ! config]\<rparr>
      in writeConfig ensureOptions w3)"

definition invalidSource :: error where
  "invalidSource = Error ''A valid source code string was not passed.''"

definition invalidConfig :: error where
  "invalidConfig = Error ''A valid configuration object was not passed. Please check the documentation.''"

text \<open>
  \<open>Buffer.toString ()\<close> decodes the bytes of the buffer; a string being modelled by
  its bytes, the decoded string has the bytes of the buffer.
\<close>

definition toString :: "string \<Rightarrow> string" where
  "toString bytes = bytes"

definition bufferToString :: "source_arg \<Rightarrow> error + source_arg" where
  "bufferToString sourceCode = (case sourceCode of
       SourceNull \<Rightarrow> Inl (TypeError ''Cannot read property constructor of null'')
     | SourceBuffer b \<Rightarrow> Inr (SourceString (toString b))
     | _ \<Rightarrow> Inr sourceCode)"

text \<open>
  \<open>lint\<close> (lines 47 to 162).  A buffer is replaced by its string; a source that is not
  a non-empty string and a configuration the inspector refuses (or that is no object
  of the store) are refused before anything is assigned.  \<open>configure\<close> is the part from
  the reset to the end of the loop over the rules; then the source is parsed and
  traversed and the messages are collected.  \<open>astUtils.init\<close> only serves
  \<open>astUtils.getLine\<close> and \<open>getColumn\<close>, whose results the nodes carry.
\<close>

definition configure :: "env \<Rightarrow> string \<Rightarrow> nat \<Rightarrow> bool \<Rightarrow> world \<Rightarrow> error option \<times> world" where
  "configure env sourceCode config noReset w =
     andThen (loadRules env (prepare sourceCode config noReset w)) (configureRules env)"

definition lintString :: "env \<Rightarrow> string \<Rightarrow> nat \<Rightarrow> bool \<Rightarrow> world \<Rightarrow> (error + message list) \<times> world" where
  "lintString env sourceCode config noReset w =
     (case lookup (heap w) config of
        None \<Rightarrow> (Inl invalidConfig, w)
      | Some cfg \<Rightarrow>
          if \<not> isValid env cfg then (Inl invalidConfig, w)
          else (case andThen (configure env sourceCode config noReset w)
                       (parseAndTraverse env sourceCode) of
                  (Some e, w') \<Rightarrow> (Inl e, w')
                | (None, w') \<Rightarrow> collect w'))"

definition lint :: "env \<Rightarrow> source_arg \<Rightarrow> nat \<Rightarrow> bool \<Rightarrow> world \<Rightarrow> (error + message list) \<times> world" where
  "lint env sourceCode config noReset w = (case bufferToString sourceCode of
       Inl e \<Rightarrow> (Inl e, w)
     | Inr src \<Rightarrow> (case src of
          SourceString s \<Rightarrow>
            if s = [] then (Inl invalidSource, w) else lintString env s config noReset w
        | _ \<Rightarrow> (Inl invalidSource, w)))"

section \<open>The fixer and lintAndFix\<close>

text \<open>
  Modelled from the spec: \<open>SourceCodeFixer.applyFixes\<close> (autofix/source-code-fixer.js
  is not among the sources), the FixEngine of section 4.5.  \<open>lo\<close> and \<open>hi\<close> are the
  minimum start offset and the maximum end offset among the edits of a diagnostic.
\<close>

definition editsOf :: "message \<Rightarrow> edit list" where
  "editsOf d = (case m_fix d of None \<Rightarrow> [] | Some es \<Rightarrow> es)"

fun minStart :: "edit list \<Rightarrow> nat" where
  "minStart [] = 0"
| "minStart [e] = startOffset e"
| "minStart (e # es) = min (startOffset e) (minStart es)"

fun maxEnd :: "edit list \<Rightarrow> nat" where
  "maxEnd [] = 0"
| "maxEnd (e # es) = max (endOffset e) (maxEnd es)"

definition lo :: "message \<Rightarrow> nat" where
  "lo d = minStart (editsOf d)"

definition hi :: "message \<Rightarrow> nat" where
  "hi d = maxEnd (editsOf d)"

text \<open>
  Modelled from the spec: the order of step 2 of the FixEngine, "Sort selected
  diagnostics by the minimum start-offset among their edits, ascending".
\<close>

definition byStart :: "message \<Rightarrow> message \<Rightarrow> bool" where
  "byStart a b = (lo a \<le> lo b)"

text \<open>
  Modelled from the spec: step 3 of the FixEngine, "Scan once, tracking \<open>frontier\<close>
  (initially 0): for each diagnostic (its edit set treated atomically), if
  \<open>min(edit.start) >= frontier\<close>, accept - append to applied list, set
  \<open>frontier = max(edit.end)\<close> across its edits; else reject - keep the diagnostic in
  the remaining list".  The result is the pair of the applied and the rejected list.
\<close>

fun scan :: "nat \<Rightarrow> message list \<Rightarrow> message list \<times> message list" where
  "scan frontier [] = ([], [])"
| "scan frontier (d # ds) =
     (if lo d \<ge> frontier
      then (d # fst (scan (hi d) ds), snd (scan (hi d) ds))
      else (fst (scan frontier ds), d # snd (scan frontier ds)))"

text \<open>
  Modelled from the spec: step 5 of the FixEngine, "concatenating unedited spans and
  each accepted edit's replacement text in ascending offset order"; the second argument
  is the offset up to which the source has been consumed.
\<close>

fun splice :: "string \<Rightarrow> nat \<Rightarrow> edit list \<Rightarrow> string" where
  "splice src cursor [] = drop cursor src"
| "splice src cursor (e # es) =
     take (startOffset e - cursor) (drop cursor src) @ replacementText e
     @ splice src (endOffset e) es"

record fix_result =
  appliedCount :: nat
  fixedSourceText :: string
  remainingDiagnostics :: "message list"

text \<open>
  Modelled from the spec: the FixEngine of section 4.5, steps 1 to 5: select the
  diagnostics carrying at least one edit, sort them by their minimum start offset, scan,
  leave the diagnostics with no edit in the remaining list, synthesize the text.
\<close>

definition applyFixes :: "string \<Rightarrow> message list \<Rightarrow> fix_result" where
  "applyFixes src diagnostics =
     (let selected = filter (\<lambda>d. editsOf d \<noteq> []) diagnostics;
          ordered = sortBy byStart selected;
          applied = fst (scan 0 ordered);
          rejected = snd (scan 0 ordered)
      in \<lparr>appliedCount = length applied,
          fixedSourceText = splice src 0
            (sortBy (\<lambda>a b. startOffset a \<le> startOffset b) (concat (map editsOf applied))),
          remainingDiagnostics = filter (\<lambda>d. editsOf d = []) diagnostics @ rejected\<rparr>)"

text \<open>\<open>lintAndFix\<close> (lines 170 to 184).\<close>

record lint_and_fix_result =
  originalSourceCode :: string
  fixesApplied :: nat
  fixedSourceCode :: string
  errorMessages :: "message list"

definition lintAndFix ::
  "env \<Rightarrow> source_arg \<Rightarrow> nat \<Rightarrow> bool \<Rightarrow> world \<Rightarrow> (error + lint_and_fix_result) \<times> world" where
  "lintAndFix env sourceCode config noReset w = (case bufferToString sourceCode of
       Inl e \<Rightarrow> (Inl e, w)
     | Inr src \<Rightarrow> (case lint env src config noReset w of
          (Inl e, w') \<Rightarrow> (Inl e, w')
        | (Inr errorObjects, w') \<Rightarrow> (case src of
             SourceString s \<Rightarrow>
               (let fixed = applyFixes s errorObjects
                in (Inr \<lparr>originalSourceCode = s, fixesApplied = appliedCount fixed,
                      fixedSourceCode = fixedSourceText fixed,
                      errorMessages = remainingDiagnostics fixed\<rparr>, w'))
           | _ \<Rightarrow> (Inl invalidSource, w'))))"

section \<open>Vocabulary of the properties\<close>

text \<open>
  Two edits overlap when their half-open ranges share an offset; two diagnostics
  overlap when an edit of one overlaps an edit of the other; their spans are apart when
  one ends (at its maximum end offset) no later than the other begins (at its minimum
  start offset), and \<open>separate\<close> when moreover they begin at different offsets.  A
  diagnostic is \<open>spanned\<close> when it has edits and its span does not end before it
  begins.  \<open>everyTwo R\<close> holds of a list when \<open>R\<close> relates every element to every later
  one.  Of two diagnostics, \<open>earlier\<close> is the one sorted first.
\<close>

definition editsOverlap :: "edit \<Rightarrow> edit \<Rightarrow> bool" where
  "editsOverlap e1 e2 = (startOffset e1 < endOffset e2 \<and> startOffset e2 < endOffset e1)"

definition overlapping :: "message \<Rightarrow> message \<Rightarrow> bool" where
  "overlapping a b = list_ex (\<lambda>e1. list_ex (\<lambda>e2. editsOverlap e1 e2) (editsOf b)) (editsOf a)"

definition spansApart :: "message \<Rightarrow> message \<Rightarrow> bool" where
  "spansApart a b = (hi a \<le> lo b \<or> hi b \<le> lo a)"

definition separate :: "message \<Rightarrow> message \<Rightarrow> bool" where
  "separate a b = (spansApart a b \<and> lo a \<noteq> lo b)"

definition spanned :: "message \<Rightarrow> bool" where
  "spanned d = (editsOf d \<noteq> [] \<and> lo d \<le> hi d)"

fun everyTwo :: "('a \<Rightarrow> 'a \<Rightarrow> bool) \<Rightarrow> 'a list \<Rightarrow> bool" where
  "everyTwo R [] = True"
| "everyTwo R (x # xs) = (list_all (R x) xs \<and> everyTwo R xs)"

definition earlier :: "message \<Rightarrow> message \<Rightarrow> message" where
  "earlier a b = (if byStart a b then a else b)"

definition later :: "message \<Rightarrow> message \<Rightarrow> message" where
  "later a b = (if byStart a b then b else a)"

text \<open>
  \<open>nodesOf\<close> lists the nodes of a tree; a tree is \<open>asParsed\<close> when no node has the
  property \<open>parent\<close>.  \<open>walk\<close> is the depth-first walk that writes nothing: it lists
  each node on entry and on exit, next to the node whose child it is (none for the
  root); \<open>notified\<close> is the notification of a step of the walk, the node with
  \<open>parent\<close> set on entry and the node itself on exit.  The parent in a notification is
  \<open>parentAsParsed\<close> when there is none, or it is a node of the tree, itself without
  \<open>parent\<close>, among whose children the node notified is.  \<open>parentDeleted n\<close> holds of a
  message that does not refer to the object of \<open>n\<close>, or whose node has no \<open>parent\<close>.
\<close>

fun nodesOf :: "node \<Rightarrow> node list" where
  "nodesOf (Node t l c p ks) = Node t l c p ks # concat (map nodesOf ks)"

fun asParsed :: "node \<Rightarrow> bool" where
  "asParsed (Node t l c p ks) = (p = None \<and> list_all asParsed ks)"

fun walk :: "node option \<Rightarrow> node \<Rightarrow> (node \<times> node option \<times> bool) list" where
  "walk parent (Node t l c p ks) =
     (Node t l c p ks, parent, False) # concat (map (walk (Some (Node t l c p ks))) ks)
     @ [(Node t l c p ks, parent, True)]"

definition notified :: "node \<times> node option \<times> bool \<Rightarrow> emitted" where
  "notified step = (case step of (n, parent, leaving) \<Rightarrow>
     \<lparr>em_node = (if leaving then n else setParent n parent), em_exit = leaving\<rparr>)"

definition parentAsParsed :: "node \<Rightarrow> emitted \<Rightarrow> bool" where
  "parentAsParsed ast ev = (case nparent (em_node ev) of None \<Rightarrow> True
     | Some q \<Rightarrow> asParsed q \<and> list_ex (\<lambda>n. n = q) (nodesOf ast)
         \<and> list_ex (\<lambda>k. k = deleteParent (em_node ev)) (nchildren q))"

definition parentDeleted :: "node \<Rightarrow> message \<Rightarrow> bool" where
  "parentDeleted n m = (case m_node m of None \<Rightarrow> True
     | Some k \<Rightarrow> \<not> sameObject k n \<or> nparent k = None)"

text \<open>
  A message is \<open>wellPlaced\<close> when it is not internal, or is at the sentinel position
  \<open>(-1, -1)\<close>; it is \<open>afterSentinel\<close> when its position is after \<open>(-1, -1)\<close> in the
  order by line, then column, as every position in a source text is.  \<open>advances w w'\<close>
  says how the state moves once \<open>lint\<close> has prepared it: the source text and the
  reference \<open>currentConfig\<close> stay, of the store only the object \<open>currentConfig\<close>
  refers to changes, and a buffer that is well placed stays so.  \<open>traversed\<close> is
  \<open>lint\<close> up to the end of the traversal; \<open>byPosition\<close> is the ascending order by
  line, then column.
\<close>

definition wellPlaced :: "message \<Rightarrow> bool" where
  "wellPlaced m = (\<not> m_internal m \<or> (m_line m = - 1 \<and> m_column m = - 1))"

definition afterSentinel :: "message \<Rightarrow> bool" where
  "afterSentinel m = (- 1 < m_line m \<or> (m_line m = - 1 \<and> - 1 < m_column m))"

definition advances :: "world \<Rightarrow> world \<Rightarrow> bool" where
  "advances w w' = (sourceCodeText w' = sourceCodeText w \<and> currentConfig w' = currentConfig w
     \<and> length (heap w') = length (heap w)
     \<and> (\<forall>i. currentConfig w \<noteq> Some i \<longrightarrow> heap w' ! i = heap w ! i)
     \<and> (list_all wellPlaced (messages w) \<longrightarrow> list_all wellPlaced (messages w')))"

text \<open>
  Two states \<open>agree\<close> when they have the same buffer, source text and listeners and
  \<open>currentConfig\<close> refers to equal objects in both (or to none); two outcomes are
  \<open>alike\<close> when the same value is returned or thrown and the states agree.
\<close>

definition agree :: "world \<Rightarrow> world \<Rightarrow> bool" where
  "agree v v' = (messages v' = messages v \<and> sourceCodeText v' = sourceCodeText v
     \<and> listeners v' = listeners v \<and> readConfig v' = readConfig v)"

definition alike :: "'a \<times> world \<Rightarrow> 'a \<times> world \<Rightarrow> bool" where
  "alike r r' = (fst r' = fst r \<and> agree (snd r) (snd r'))"

definition traversed :: "env \<Rightarrow> string \<Rightarrow> nat \<Rightarrow> bool \<Rightarrow> world \<Rightarrow> error option \<times> world" where
  "traversed env s c nr w = andThen (configure env s c nr w) (parseAndTraverse env s)"

definition byPosition :: "message \<Rightarrow> message \<Rightarrow> bool" where
  "byPosition a b = (m_line a < m_line b \<or> (m_line a = m_line b \<and> m_column a \<le> m_column b))"






section \<open>Concrete inputs\<close>

text \<open>The inputs at which the theorems below are instantiated.\<close>

definition plainIssue :: "node option \<Rightarrow> jsval \<Rightarrow> fixval \<Rightarrow> issue" where
  "plainIssue n text f = \<lparr>i_ruleId = None, i_ruleName = None, i_type = None, i_ruleMeta = None,
     i_node = n, i_message = text, i_location = None, i_fix = f\<rparr>"

definition leafNode :: node where
  "leafNode = Node ''Identifier'' 3 4 None []"

definition plainMeta :: rule_meta where
  "plainMeta = \<lparr>deprecated = False, replacedBy = None, schema = [], fixable = None\<rparr>"

definition camelcaseContext :: rule_context where
  "camelcaseContext = \<lparr>ctx_name = ''camelcase'',
     ctx_config = \<lparr>rc_type = Some ''error'', rc_options = None\<rparr>, ctx_meta = plainMeta,
     ctx_source = ''contract a {}''\<rparr>"

definition someEdit :: edit where
  "someEdit = \<lparr>startOffset = 0, endOffset = 1, replacementText = ''A''\<rparr>"

definition fixIssue :: issue where
  "fixIssue = (plainIssue (Some leafNode) (JStr ''bad name'') (FixFunction (\<lambda>k. [someEdit])))
     \<lparr>i_ruleName := Some ''camelcase'', i_ruleMeta := Some plainMeta\<rparr>"

definition withEdits :: "edit list \<Rightarrow> message" where
  "withEdits es = \<lparr>m_ruleName = Some ''quotes'', m_type = Some ''error'', m_node = Some leafNode,
     m_message = JStr ''use double quotes'', m_line = 3, m_column = 4, m_fix = Some es,
     m_internal = False\<rparr>"

definition span :: "nat \<Rightarrow> nat \<Rightarrow> edit" where
  "span a b = \<lparr>startOffset = a, endOffset = b, replacementText = ''x''\<rparr>"

definition twoNodes :: node where
  "twoNodes = Node ''Program'' 1 0 None [Node ''ContractStatement'' 2 0 None []]"

definition contractNode :: node where
  "contractNode = Node ''ContractStatement'' 2 0 None [Node ''Identifier'' 2 9 None []]"

definition threeLevels :: node where
  "threeLevels = Node ''Program'' 1 0 None [contractNode]"

text \<open>
  A registry of five rules: mixedcase reports every identifier it enters, with a fix
  although its meta has no \<open>fixable\<close>; broken reports every literal it enters without a
  message; old is deprecated; misdeclared declares a \<open>fixable\<close> other than "code", which
  the rule inspector refuses; displaced reports every identifier it enters at the
  location line -5, column 3.  The loader enables every rule the configuration names;
  the parser knows three sources.
\<close>

definition onEnter :: "(node \<Rightarrow> call list) \<Rightarrow> handler" where
  "onEnter f history = (case rev history of [] \<Rightarrow> []
     | ev # _ \<Rightarrow> if em_exit ev then [] else f (em_node ev))"

definition namingRule :: rule where
  "namingRule = \<lparr>meta = plainMeta, verify = (\<lambda>ctx. Inr [(''Identifier'',
     onEnter (\<lambda>n. [CallReport (IssueObject
       (plainIssue (Some n) (JStr ''bad name'') (FixFunction (\<lambda>k. [someEdit]))))]))])\<rparr>"

definition brokenRule :: rule where
  "brokenRule = \<lparr>meta = plainMeta, verify = (\<lambda>ctx. Inr [(''Literal'',
     onEnter (\<lambda>n. [CallReport (IssueObject (plainIssue (Some n) JUndefined FixAbsent))]))])\<rparr>"

definition oldRule :: rule where
  "oldRule = \<lparr>meta = plainMeta\<lparr>deprecated := True, replacedBy := Some [''camelcase'']\<rparr>,
     verify = (\<lambda>ctx. Inr [])\<rparr>"

definition misdeclaredRule :: rule where
  "misdeclaredRule = \<lparr>meta = plainMeta\<lparr>fixable := Some ''whitespace''\<rparr>,
     verify = (\<lambda>ctx. Inr [])\<rparr>"

definition displacedRule :: rule where
  "displacedRule = \<lparr>meta = plainMeta, verify = (\<lambda>ctx. Inr [(''Identifier'',
     onEnter (\<lambda>n. [CallReport (IssueObject
       ((plainIssue (Some n) (JStr ''bad name'') FixAbsent)
          \<lparr>i_location := Some \<lparr>loc_line = Some (- 5), loc_column = Some 3\<rparr>\<rparr>))]))])\<rparr>"

definition registry :: "string \<Rightarrow> rule option" where
  "registry name = (if name = ''mixedcase'' then Some namingRule
     else if name = ''broken'' then Some brokenRule
     else if name = ''old'' then Some oldRule
     else if name = ''misdeclared'' then Some misdeclaredRule
     else if name = ''displaced'' then Some displacedRule
     else None)"

definition sampleTree :: "string \<Rightarrow> string + node" where
  "sampleTree src = (if src = ''uint B; uint A = 1;''
     then Inr (Node ''Program'' 1 0 None
       [Node ''Identifier'' 5 2 None [], Node ''Identifier'' 2 7 None [],
        Node ''Literal'' 2 11 None []])
     else if src = ''uint c;''
     then Inr (Node ''Program'' 1 0 None [Node ''Identifier'' 1 5 None []])
     else if src = ''contract {}'' then Inr (Node ''Program'' 1 0 None [])
     else Inl ''syntax error'')"

definition sampleEnv :: env where
  "sampleEnv = \<lparr>isValid = (\<lambda>c. case cfg_rules c of UserRules rs \<Rightarrow> True | _ \<Rightarrow> False),
     isFormatDeprecated = (\<lambda>c. False),
     rules_load = (\<lambda>c. case cfg_rules c of
        UserRules rs \<Rightarrow> Inr (map (\<lambda>r. (fst r, \<lparr>rc_type = Some ''error'', rc_options = None\<rparr>)) rs)
      | _ \<Rightarrow> Inr []),
     rules_loadUsingDeprecatedConfigFormat = (\<lambda>rs crf. Inr []),
     rules_get = registry,
     isAValidRuleObject = (\<lambda>r. case fixable (meta r) of None \<Rightarrow> True | Some k \<Rightarrow> k = ''code''),
     areValidOptionsPassed = (\<lambda>opts sch. length opts = length sch),
     solidityParser_parse = sampleTree\<rparr>"

definition userConfig :: "string list \<Rightarrow> bool \<Rightarrow> config" where
  "userConfig names internals = \<lparr>cfg_rules = UserRules (map (\<lambda>n. (n, JBool True)) names),
     cfg_options = Some \<lparr>returnInternalIssues = internals\<rparr>, custom_rules_filename = None\<rparr>"

definition sampleWorld :: world where
  "sampleWorld = initial\<lparr>heap := [userConfig [''mixedcase''] True,
     userConfig [''mixedcase'', ''broken''] True, userConfig [] True,
     userConfig [''old'', ''misdeclared'', ''mixedcase''] True]\<rparr>"


definition ignoredFix :: message where
  "ignoredFix = internalMessage (warningIssue (fixIgnoredText (Some ''mixedcase'')))"

definition found :: "nat \<Rightarrow> nat \<Rightarrow> message" where
  "found l c = \<lparr>m_ruleName = Some ''mixedcase'', m_type = Some ''error'',
     m_node = Some (Node ''Identifier'' l c None []),
     m_message = JStr ''bad name'', m_line = int l, m_column = int c, m_fix = None,
     m_internal = False\<rparr>"

definition displacedWorld :: world where
  "displacedWorld = initial\<lparr>heap := [userConfig [''old'', ''displaced''] True]\<rparr>"

definition displaced :: message where
  "displaced = \<lparr>m_ruleName = Some ''displaced'', m_type = Some ''error'',
     m_node = Some (Node ''Identifier'' 1 5 None []),
     m_message = JStr ''bad name'', m_line = - 5, m_column = 3, m_fix = None,
     m_internal = False\<rparr>"

definition oldNotice :: message where
  "oldNotice = internalMessage (warningIssue (deprecatedRuleText ''old'' (meta oldRule)))"

text \<open>The definitions that evaluating \<open>lint\<close> at a concrete input unfolds.\<close>

lemmas lint_defs = lint_def lintString_def bufferToString_def toString_def lookup_def
  configure_def prepare_def reset_def writeConfig_def ensureOptions_def loadRules_def
  readConfig_def storeRules_def configureRules_def configureRule_def subscribe_def
  parseAndTraverse_def emit_def notify_def perform_def contextReport_def collect_def
  andThen_def push_def sortBy_def compareMessages_def setParent_def deleteParent_def
  visit_def seenAs_def sameObject_def Let_def

lemmas sample_defs = sampleEnv_def sampleWorld_def sampleTree_def userConfig_def registry_def
  namingRule_def brokenRule_def oldRule_def misdeclaredRule_def displacedRule_def
  onEnter_def plainMeta_def plainIssue_def initial_def

lemmas report_defs = internalMessage_def reportedMessage_def warningIssue_def getLineOf_def
  getColumnOf_def isNonEmptyString_def truthy_def

lemmas out_defs = ignoredFix_def found_def displaced_def oldNotice_def displacedWorld_def

section \<open>Reporting\<close>

text \<open>
  A malformed issue is neither dropped nor stored: \<open>report\<close> throws and leaves the
  state as it was.
\<close>

lemma report_malformed_throws:
  assumes "i_node e = None \<or> \<not> isNonEmptyString (i_message e)"
  shows "\<exists>text. report (IssueObject e) w = (Some (Error text), w)"
  using assms by (auto split: option.splits)

text \<open>
  C5.  A report call whose issue lacks a valid node or a non-empty string message raises
  an error attributed to the reporting rule.  The error is raised (lemma
  \<open>report_malformed_throws\<close>), but its text is built from the property \<open>ruleId\<close>,
  whereas the name of the rule is in \<open>ruleName\<close>: for an issue reported by the rule
  camelcase, directly or through its context, the text reads "Rule undefined ...".
\<close>

theorem report_malformed_names_ruleId:
  "report (IssueObject ((plainIssue None (JStr ''bad name'') FixAbsent)\<lparr>i_ruleName := Some ''camelcase''\<rparr>)) initial
     = (Some (Error ''Rule undefined does not provide a valid AST node''), initial)
   \<and> contextReport camelcaseContext (IssueObject (plainIssue None (JStr ''bad name'') FixAbsent)) initial
     = (Some (Error ''Rule undefined does not provide a valid AST node''), initial)
   \<and> contextReport camelcaseContext (IssueObject (plainIssue (Some leafNode) JUndefined FixAbsent)) initial
     = (Some (Error ''Rule undefined flags a node but doesn't provide an error description''), initial)"
  by (simp add: contextReport_def plainIssue_def jsString_def isNonEmptyString_def)

text \<open>
  C6, as stated: \<open>reportInternal\<close> applies the validation of \<open>report\<close>, so it raises
  whenever \<open>report\<close> does.  It does not: an issue with no node and an empty message is
  refused by \<open>report\<close> and accepted by \<open>reportInternal\<close>.
\<close>

theorem reportInternal_validation_counterexample:
  "\<not> (\<forall>a w. fst (report a w) \<noteq> None \<longrightarrow> fst (reportInternal a w) \<noteq> None)"
proof
  assume h: "\<forall>a w. fst (report a w) \<noteq> None \<longrightarrow> fst (reportInternal a w) \<noteq> None"
  have "fst (report (IssueObject (plainIssue None (JStr []) FixAbsent)) initial) \<noteq> None"
    by (simp add: plainIssue_def)
  with h have "fst (reportInternal (IssueObject (plainIssue None (JStr []) FixAbsent)) initial) \<noteq> None"
    by blast
  then show False by simp
qed

text \<open>
  C6, amended.  \<open>reportInternal\<close> only checks that the issue is an object; an object it
  appends to the buffer with \<open>internal\<close> set and with line and column \<open>-1\<close>, whatever
  its node and message are.
\<close>

theorem reportInternal_checks_object_only:
  "reportInternal NotAnObject w = (Some (Error ''Invalid error object''), w)
   \<and> reportInternal (IssueObject issue) w = (None, w\<lparr>messages := messages w @ [internalMessage issue]\<rparr>)
   \<and> m_internal (internalMessage issue) \<and> m_line (internalMessage issue) = - 1
   \<and> m_column (internalMessage issue) = - 1
   \<and> m_message (internalMessage issue) = i_message issue
   \<and> m_node (internalMessage issue) = i_node issue"
  by (simp add: internalMessage_def)

lemma applyFixes_skips:
  assumes "editsOf d = []"
  shows "appliedCount (applyFixes src (xs @ d # ys)) = appliedCount (applyFixes src (xs @ ys))
    \<and> fixedSourceText (applyFixes src (xs @ d # ys)) = fixedSourceText (applyFixes src (xs @ ys))"
  using assms by (simp add: applyFixes_def Let_def)

text \<open>
  C7.  A valid issue that carries a fix, reported by a rule whose meta has no
  \<open>fixable\<close>: \<open>report\<close> returns normally, having appended exactly one internal warning
  that names the rule and then the diagnostic without any fix.  The state it leaves is
  the same whatever the fix was, and the fixer applies as many fixes and produces the
  same text with the diagnostic in its input as without it: no edit of the fix is
  applied.
\<close>

theorem report_fix_without_fixable:
  assumes "i_node e = Some n" and "isNonEmptyString (i_message e)"
    and "i_fix e \<noteq> FixAbsent" and "f \<noteq> FixAbsent"
    and "i_ruleMeta e = Some rm" and "\<not> truthy (fixable rm)"
  shows "report (IssueObject e) w = (None, w\<lparr>messages := messages w
           @ [internalMessage (warningIssue (fixIgnoredText (i_ruleName e))), reportedMessage e n]\<rparr>)
     \<and> m_internal (internalMessage (warningIssue (fixIgnoredText (i_ruleName e))))
     \<and> m_message (internalMessage (warningIssue (fixIgnoredText (i_ruleName e))))
         = JStr (''[WARNING] The fixes supplied by rule '' @ quoted (jsString (i_ruleName e))
             @ '' will be ignored since its '' @ quoted ''meta'' @ '' doesn't contain the ''
             @ quoted ''fixable'' @ '' property.'')
     \<and> \<not> m_internal (reportedMessage e n) \<and> m_fix (reportedMessage e n) = None
     \<and> report (IssueObject (e\<lparr>i_fix := f\<rparr>)) w = report (IssueObject e) w
     \<and> appliedCount (applyFixes src (xs @ reportedMessage e n # ys))
         = appliedCount (applyFixes src (xs @ ys))
     \<and> fixedSourceText (applyFixes src (xs @ reportedMessage e n # ys))
         = fixedSourceText (applyFixes src (xs @ ys))"
proof -
  have "editsOf (reportedMessage e n) = []"
    by (simp add: editsOf_def reportedMessage_def)
  then have "appliedCount (applyFixes src (xs @ reportedMessage e n # ys))
      = appliedCount (applyFixes src (xs @ ys))
    \<and> fixedSourceText (applyFixes src (xs @ reportedMessage e n # ys))
      = fixedSourceText (applyFixes src (xs @ ys))"
    by (rule applyFixes_skips)
  moreover have "report (IssueObject e) w = (None, w\<lparr>messages := messages w
           @ [internalMessage (warningIssue (fixIgnoredText (i_ruleName e))), reportedMessage e n]\<rparr>)
     \<and> m_internal (internalMessage (warningIssue (fixIgnoredText (i_ruleName e))))
     \<and> m_message (internalMessage (warningIssue (fixIgnoredText (i_ruleName e))))
         = JStr (''[WARNING] The fixes supplied by rule '' @ quoted (jsString (i_ruleName e))
             @ '' will be ignored since its '' @ quoted ''meta'' @ '' doesn't contain the ''
             @ quoted ''fixable'' @ '' property.'')
     \<and> \<not> m_internal (reportedMessage e n) \<and> m_fix (reportedMessage e n) = None
     \<and> report (IssueObject (e\<lparr>i_fix := f\<rparr>)) w = report (IssueObject e) w"
    using assms
    by (cases "i_fix e"; cases f)
       (simp_all add: andThen_def push_def internalMessage_def warningIssue_def
          reportedMessage_def fixIgnoredText_def)
  ultimately show ?thesis by blast
qed

theorem report_fix_without_fixable_witness:
  "report (IssueObject fixIssue) initial
     = (None, initial\<lparr>messages :=
         [internalMessage (warningIssue (fixIgnoredText (Some ''camelcase''))),
          reportedMessage fixIssue leafNode]\<rparr>)
   \<and> m_fix (reportedMessage fixIssue leafNode) = None
   \<and> report (IssueObject (fixIssue\<lparr>i_fix := FixNotAFunction\<rparr>)) initial
       = report (IssueObject fixIssue) initial
   \<and> appliedCount (applyFixes ''contract a {}''
         [withEdits [someEdit], reportedMessage fixIssue leafNode]) = 1
   \<and> fixedSourceText (applyFixes ''contract a {}''
         [withEdits [someEdit], reportedMessage fixIssue leafNode]) = ''Aontract a {}''"
proof -
  have h1: "i_node fixIssue = Some leafNode"
    and h2: "isNonEmptyString (i_message fixIssue)"
    and h3: "i_fix fixIssue \<noteq> FixAbsent"
    and h4: "FixNotAFunction \<noteq> FixAbsent"
    and h5: "i_ruleMeta fixIssue = Some plainMeta"
    and h6: "\<not> truthy (fixable plainMeta)"
    by (simp_all add: fixIssue_def plainIssue_def plainMeta_def isNonEmptyString_def truthy_def)
  have name: "i_ruleName fixIssue = Some ''camelcase''"
    by (simp add: fixIssue_def plainIssue_def)
  have empty: "messages initial = []"
    by (simp add: initial_def)
  have alone: "appliedCount (applyFixes ''contract a {}'' ([withEdits [someEdit]] @ [])) = 1"
    "fixedSourceText (applyFixes ''contract a {}'' ([withEdits [someEdit]] @ [])) = ''Aontract a {}''"
    by (simp_all add: applyFixes_def Let_def editsOf_def withEdits_def someEdit_def sortBy_def
        lo_def hi_def)
  from report_fix_without_fixable [OF h1 h2 h3 h4 h5 h6, of initial "''contract a {}''"
      "[withEdits [someEdit]]" "[]"]
  show ?thesis unfolding name empty alone by simp
qed

section \<open>The source argument\<close>

text \<open>
  C9.  \<open>lint\<close> and \<open>lintAndFix\<close> called with a buffer behave as when called with the
  string the buffer decodes to, and an empty buffer is refused with the error of an
  empty string.
\<close>

theorem lint_accepts_buffer:
  "lint env (SourceBuffer b) config noReset w = lint env (SourceString (toString b)) config noReset w
   \<and> lintAndFix env (SourceBuffer b) config noReset w
       = lintAndFix env (SourceString (toString b)) config noReset w
   \<and> lint env (SourceBuffer []) config noReset w = (Inl invalidSource, w)
   \<and> lint env (SourceString []) config noReset w = (Inl invalidSource, w)
   \<and> lintAndFix env (SourceBuffer []) config noReset w = (Inl invalidSource, w)
   \<and> lintAndFix env (SourceString []) config noReset w = (Inl invalidSource, w)"
  by (simp add: lint_def lintAndFix_def bufferToString_def toString_def)

section \<open>Sorting\<close>

lemma set_insertBy: "set (insertBy le x xs) = insert x (set xs)"
  by (induction xs) auto

lemma set_sortBy: "set (sortBy le xs) = set xs"
  by (induction xs) (simp_all add: sortBy_def set_insertBy)

lemma length_insertBy: "length (insertBy le x xs) = Suc (length xs)"
  by (induction xs) auto

lemma length_sortBy: "length (sortBy le xs) = length xs"
  by (induction xs) (simp_all add: sortBy_def length_insertBy)

lemma sortBy_Nil: "sortBy le [] = []"
  by (simp add: sortBy_def)

lemma sortBy_Cons: "sortBy le (x # xs) = insertBy le x (sortBy le xs)"
  by (simp add: sortBy_def)

lemma sorted_insertBy:
  assumes total: "\<And>a b. le a b \<or> le b a" and trans: "\<And>a b c. le a b \<Longrightarrow> le b c \<Longrightarrow> le a c"
  shows "sorted_wrt le xs \<Longrightarrow> sorted_wrt le (insertBy le x xs)"
proof (induction xs)
  case Nil
  show ?case by simp
next
  case (Cons y ys)
  show ?case
  proof (cases "le x y")
    case True
    then show ?thesis using Cons.prems trans by auto
  next
    case False
    then have "le y x" using total by blast
    then show ?thesis using False Cons by (auto simp: set_insertBy)
  qed
qed

lemma sorted_sortBy:
  assumes total: "\<And>a b. le a b \<or> le b a" and trans: "\<And>a b c. le a b \<Longrightarrow> le b c \<Longrightarrow> le a c"
  shows "sorted_wrt le (sortBy le xs)"
  by (induction xs) (simp_all add: sortBy_Nil sortBy_Cons sorted_insertBy [OF total trans])

section \<open>The fixer\<close>

lemma everyTwo_insertBy:
  assumes sym: "\<And>a b. R a b \<Longrightarrow> R b a"
  shows "everyTwo R xs \<Longrightarrow> list_all (R x) xs \<Longrightarrow> everyTwo R (insertBy le x xs)"
  by (induction xs) (auto simp: list_all_iff set_insertBy dest: sym)

lemma everyTwo_sortBy:
  assumes sym: "\<And>a b. R a b \<Longrightarrow> R b a"
  shows "everyTwo R xs \<Longrightarrow> everyTwo R (sortBy le xs)"
  by (induction xs) (auto simp: sortBy_Nil sortBy_Cons list_all_iff set_sortBy intro!: everyTwo_insertBy sym)

lemma chained:
  "everyTwo separate ds \<Longrightarrow> sorted_wrt byStart ds \<Longrightarrow> list_all (\<lambda>d. lo d \<le> hi d) ds
   \<Longrightarrow> sorted_wrt (\<lambda>a b. hi a \<le> lo b) ds"
proof (induction ds)
  case Nil
  show ?case by simp
next
  case (Cons d ds)
  have "hi d \<le> lo x" if "x \<in> set ds" for x
  proof -
    have "separate d x" and "lo d \<le> lo x" and "lo x \<le> hi x"
      using Cons.prems that by (auto simp: list_all_iff byStart_def)
    then show ?thesis by (auto simp: separate_def spansApart_def)
  qed
  then show ?case using Cons by simp
qed

lemma scan_chained:
  "sorted_wrt (\<lambda>a b. hi a \<le> lo b) ds \<Longrightarrow> list_all (\<lambda>d. frontier \<le> lo d) ds
   \<Longrightarrow> list_all (\<lambda>d. lo d \<le> hi d) ds \<Longrightarrow> scan frontier ds = (ds, [])"
proof (induction ds arbitrary: frontier)
  case Nil
  show ?case by simp
next
  case (Cons d ds)
  have "list_all (\<lambda>x. hi d \<le> lo x) ds" using Cons.prems(1) by (simp add: list_all_iff)
  then have "scan (hi d) ds = (ds, [])" using Cons by simp
  then show ?case using Cons.prems by simp
qed

lemma minStart_le: "e \<in> set es \<Longrightarrow> minStart es \<le> startOffset e"
  by (induction es rule: minStart.induct) auto

lemma maxEnd_ge: "e \<in> set es \<Longrightarrow> endOffset e \<le> maxEnd es"
  by (induction es) auto

lemma overlapping_spans: "overlapping a b \<Longrightarrow> lo b < hi a \<and> lo a < hi b"
  unfolding overlapping_def list_ex_iff editsOverlap_def lo_def hi_def
  by (meson le_less_trans less_le_trans minStart_le maxEnd_ge)

lemma overlapping_edits: "overlapping a b \<Longrightarrow> editsOf a \<noteq> [] \<and> editsOf b \<noteq> []"
  unfolding overlapping_def list_ex_iff by auto

lemma byStart_total: "byStart a b \<or> byStart b a"
  by (auto simp: byStart_def)

lemma byStart_trans: "byStart a b \<Longrightarrow> byStart b c \<Longrightarrow> byStart a c"
  by (auto simp: byStart_def)

lemma separate_sym: "separate a b \<Longrightarrow> separate b a"
  by (auto simp: separate_def spansApart_def)

lemma scan_all_accepted:
  assumes "list_all spanned ds" and "everyTwo separate ds"
  shows "scan 0 (sortBy byStart ds) = (sortBy byStart ds, [])"
proof -
  have "list_all (\<lambda>d. lo d \<le> hi d) (sortBy byStart ds)"
    using assms(1) by (simp add: list_all_iff set_sortBy spanned_def)
  moreover have "everyTwo separate (sortBy byStart ds)"
    using assms(2) separate_sym by (rule everyTwo_sortBy [rotated])
  moreover have "sorted_wrt byStart (sortBy byStart ds)"
    by (rule sorted_sortBy [OF byStart_total byStart_trans])
  ultimately have "sorted_wrt (\<lambda>a b. hi a \<le> lo b) (sortBy byStart ds)"
    and "list_all (\<lambda>d. lo d \<le> hi d) (sortBy byStart ds)"
    by (auto simp: chained)
  then show ?thesis by (simp add: scan_chained list_all_iff)
qed

lemma applyFixes_all_accepted:
  assumes "list_all spanned ds" and "everyTwo separate ds"
  shows "appliedCount (applyFixes src ds) = length ds
    \<and> remainingDiagnostics (applyFixes src ds) = []"
proof -
  have sel: "filter (\<lambda>d. editsOf d \<noteq> []) ds = ds" and none: "filter (\<lambda>d. editsOf d = []) ds = []"
    using assms(1) by (induction ds) (auto simp: spanned_def)
  show ?thesis
    by (simp add: applyFixes_def Let_def sel none scan_all_accepted [OF assms] length_sortBy)
qed

lemma sortBy_two: "sortBy byStart [a, b] = [earlier a b, later a b]"
  by (simp add: sortBy_def earlier_def later_def)

lemma scan_two_overlapping:
  assumes "overlapping a b"
  shows "scan 0 [earlier a b, later a b] = ([earlier a b], [later a b])"
proof -
  have "lo b < hi a" and "lo a < hi b"
    using overlapping_spans [OF assms] by simp_all
  then show ?thesis by (simp add: earlier_def later_def)
qed

lemma applyFixes_two_overlapping:
  assumes "overlapping a b"
  shows "appliedCount (applyFixes src [a, b]) = 1
    \<and> remainingDiagnostics (applyFixes src [a, b]) = [later a b]"
  using overlapping_edits [OF assms]
  by (simp add: applyFixes_def Let_def sortBy_two scan_two_overlapping [OF assms]
      del: scan.simps)

text \<open>
  C4, as stated: N diagnostics with pairwise non-overlapping edits are all accepted.
  They are not when the edits of one lie on both sides of another: of the edits
  \<open>[0, 1)\<close> and \<open>[10, 11)\<close> of a first diagnostic and \<open>[5, 6)\<close> of a second no two
  overlap, yet the scan accepts the first diagnostic, moves the frontier to 11 and
  rejects the second.
\<close>

theorem fixEngine_counterexample:
  "everyTwo (\<lambda>a b. \<not> overlapping a b)
     [withEdits [span 0 1, span 10 11], withEdits [span 5 6]]
   \<and> appliedCount (applyFixes ''0123456789abc''
       [withEdits [span 0 1, span 10 11], withEdits [span 5 6]]) = 1
   \<and> remainingDiagnostics (applyFixes ''0123456789abc''
       [withEdits [span 0 1, span 10 11], withEdits [span 5 6]]) = [withEdits [span 5 6]]"
  by (simp add: applyFixes_def overlapping_def editsOverlap_def withEdits_def span_def editsOf_def
      sortBy_def lo_def hi_def Let_def byStart_def)

text \<open>
  C4, amended.  The scan accepts a diagnostic exactly when its minimum start offset is
  at least the frontier, which then becomes its maximum end offset.  N diagnostics, each
  with edits, whose spans (from the minimum start offset to the maximum end offset, the
  empty span of an insertion included) are pairwise apart and begin at pairwise
  different offsets, are all accepted, the applied count is N and nothing remains.  Of
  two diagnostics with overlapping edits exactly the earlier-sorted one is accepted and
  the other remains.
\<close>

theorem fixEngine_scan:
  "scan frontier (d # ds) =
     (if frontier \<le> lo d then (d # fst (scan (hi d) ds), snd (scan (hi d) ds))
      else (fst (scan frontier ds), d # snd (scan frontier ds)))
   \<and> (list_all spanned ns \<and> everyTwo separate ns \<longrightarrow>
        scan 0 (sortBy byStart ns) = (sortBy byStart ns, [])
        \<and> appliedCount (applyFixes src ns) = length ns
        \<and> remainingDiagnostics (applyFixes src ns) = [])
   \<and> (overlapping a b \<longrightarrow>
        sortBy byStart [a, b] = [earlier a b, later a b]
        \<and> scan 0 [earlier a b, later a b] = ([earlier a b], [later a b])
        \<and> appliedCount (applyFixes src [a, b]) = 1
        \<and> remainingDiagnostics (applyFixes src [a, b]) = [later a b])"
  using scan_all_accepted [of ns] applyFixes_all_accepted [of ns src] sortBy_two [of a b]
    scan_two_overlapping [of a b] applyFixes_two_overlapping [of a b src]
  by simp

theorem fixEngine_scan_witness:
  "scan 0 (sortBy byStart
       [withEdits [span 7 7], withEdits [span 5 6], withEdits [span 0 1, span 2 5]])
     = ([withEdits [span 0 1, span 2 5], withEdits [span 5 6], withEdits [span 7 7]], [])
   \<and> appliedCount (applyFixes ''0123456789''
       [withEdits [span 7 7], withEdits [span 5 6], withEdits [span 0 1, span 2 5]]) = 3
   \<and> remainingDiagnostics (applyFixes ''0123456789''
       [withEdits [span 7 7], withEdits [span 5 6], withEdits [span 0 1, span 2 5]]) = []
   \<and> overlapping (withEdits [span 4 8]) (withEdits [span 2 5])
   \<and> appliedCount (applyFixes ''0123456789'' [withEdits [span 4 8], withEdits [span 2 5]]) = 1
   \<and> remainingDiagnostics (applyFixes ''0123456789''
       [withEdits [span 4 8], withEdits [span 2 5]]) = [withEdits [span 4 8]]"
proof -
  let ?ns = "[withEdits [span 7 7], withEdits [span 5 6], withEdits [span 0 1, span 2 5]]"
  have h1: "list_all spanned ?ns \<and> everyTwo separate ?ns"
    by (simp add: withEdits_def span_def editsOf_def lo_def hi_def spanned_def separate_def
        spansApart_def)
  have h2: "overlapping (withEdits [span 4 8]) (withEdits [span 2 5])"
    by (simp add: overlapping_def editsOverlap_def withEdits_def span_def editsOf_def)
  have s: "sortBy byStart ?ns
      = [withEdits [span 0 1, span 2 5], withEdits [span 5 6], withEdits [span 7 7]]"
    by (simp add: sortBy_def byStart_def withEdits_def span_def editsOf_def lo_def)
  have l: "later (withEdits [span 4 8]) (withEdits [span 2 5]) = withEdits [span 4 8]"
    by (simp add: later_def byStart_def withEdits_def span_def editsOf_def lo_def)
  from fixEngine_scan [of 0 "withEdits [span 5 6]" "[]" ?ns "''0123456789''"
      "withEdits [span 4 8]" "withEdits [span 2 5]"] h1 h2
  show ?thesis unfolding s l by simp
qed

section \<open>The traversal\<close>

lemma deleteParent_asParsed: "asParsed n \<Longrightarrow> deleteParent n = n"
  by (cases n) (simp add: deleteParent_def)

lemma asParsed_nodesOf: "asParsed n \<Longrightarrow> q \<in> set (nodesOf n) \<Longrightarrow> asParsed q"
proof (induction n rule: nodesOf.induct)
  case (1 t l c p ks)
  then show ?case by (auto simp: list_all_iff)
qed

lemma nodesOf_self: "n \<in> set (nodesOf n)"
  by (cases n) simp

lemma traverse_walk:
  "asParsed n \<Longrightarrow> traverse parent n = map notified (walk parent n)"
proof (induction parent n rule: traverse.induct)
  case (1 parent t l c p ks)
  have d: "deleteParent (Node t l c p ks) = Node t l c p ks"
    using 1(2) by (rule deleteParent_asParsed)
  have kids: "map (traverse (Some (Node t l c p ks))) ks
      = map (\<lambda>k. map notified (walk (Some (Node t l c p ks)) k)) ks"
    using 1 d by (intro map_cong refl) (simp add: list_all_iff)
  have "traverse parent (Node t l c p ks)
      = \<lparr>em_node = setParent (Node t l c p ks) parent, em_exit = False\<rparr>
        # concat (map (traverse (Some (Node t l c p ks))) ks)
        @ [\<lparr>em_node = Node t l c p ks, em_exit = True\<rparr>]"
    using d by simp
  then have L: "traverse parent (Node t l c p ks)
      = \<lparr>em_node = setParent (Node t l c p ks) parent, em_exit = False\<rparr>
        # concat (map (\<lambda>k. map notified (walk (Some (Node t l c p ks)) k)) ks)
        @ [\<lparr>em_node = Node t l c p ks, em_exit = True\<rparr>]"
    by (simp only: kids)
  have R: "map notified (walk parent (Node t l c p ks))
      = \<lparr>em_node = setParent (Node t l c p ks) parent, em_exit = False\<rparr>
        # concat (map (\<lambda>k. map notified (walk (Some (Node t l c p ks)) k)) ks)
        @ [\<lparr>em_node = Node t l c p ks, em_exit = True\<rparr>]"
    by (simp add: notified_def map_concat comp_def)
  from L R show ?case by (simp only:)
qed

lemma traverse_leave:
  "list_all (\<lambda>ev. em_exit ev \<longrightarrow> nparent (em_node ev) = None) (traverse parent n)"
proof (induction parent n rule: traverse.induct)
  case (1 parent t l c p ks)
  then show ?case by (simp add: list_all_iff deleteParent_def setParent_def)
qed

lemma traverse_parents:
  "asParsed n \<Longrightarrow> ev \<in> set (traverse parent n) \<Longrightarrow> nparent (em_node ev) = Some q
   \<Longrightarrow> (parent = Some q \<and> deleteParent (em_node ev) = n)
     \<or> (asParsed q \<and> q \<in> set (nodesOf n) \<and> deleteParent (em_node ev) \<in> set (nchildren q))"
proof (induction parent n arbitrary: ev q rule: traverse.induct)
  case (1 parent t l c p ks)
  let ?n = "Node t l c p ks"
  have d: "deleteParent ?n = ?n" using 1(2) by (rule deleteParent_asParsed)
  have p: "p = None" using 1(2) by simp
  from 1(3) consider (entry) "ev = \<lparr>em_node = setParent ?n parent, em_exit = False\<rparr>"
    | (below) k where "k \<in> set ks" and "ev \<in> set (traverse (Some ?n) k)"
    | (leaving) "ev = \<lparr>em_node = ?n, em_exit = True\<rparr>"
    using d by auto
  then show ?case
  proof cases
    case entry
    then show ?thesis using "1.prems"(3) p by (simp add: setParent_def deleteParent_def)
  next
    case below
    have ak: "asParsed k" using "1.prems"(1) below(1) by (simp add: list_all_iff)
    from "1.IH" [OF below(1) ak] below(2) "1.prems"(3) d
    have "(Some ?n = Some q \<and> deleteParent (em_node ev) = k)
       \<or> (asParsed q \<and> q \<in> set (nodesOf k) \<and> deleteParent (em_node ev) \<in> set (nchildren q))"
      by simp
    then show ?thesis
    proof
      assume "Some ?n = Some q \<and> deleteParent (em_node ev) = k"
      then have "asParsed q \<and> q \<in> set (nodesOf ?n)
          \<and> deleteParent (em_node ev) \<in> set (nchildren q)"
        using "1.prems"(1) below(1) by auto
      then show ?thesis by simp
    next
      assume "asParsed q \<and> q \<in> set (nodesOf k) \<and> deleteParent (em_node ev) \<in> set (nchildren q)"
      then show ?thesis using below(1) by auto
    qed
  next
    case leaving
    then show ?thesis using "1.prems"(3) p by simp
  qed
qed

lemma traverse_parentAsParsed:
  assumes "asParsed ast"
  shows "list_all (parentAsParsed ast) (traverse None ast)"
proof -
  have "parentAsParsed ast ev" if "ev \<in> set (traverse None ast)" for ev
  proof (cases "nparent (em_node ev)")
    case None
    then show ?thesis by (simp add: parentAsParsed_def)
  next
    case (Some q)
    from traverse_parents [OF assms that Some] show ?thesis
      by (simp add: parentAsParsed_def Some list_ex_iff)
  qed
  then show ?thesis by (simp add: list_all_iff)
qed

lemma seenAs_deleted: "list_all (parentDeleted n) (messages (seenAs (deleteParent n) w))"
  by (auto simp: list_all_iff seenAs_def parentDeleted_def sameObject_def deleteParent_def
      split: option.splits)

lemma visit_deletes:
  assumes "\<not> em_exit ev" and "fst (visit history ev w) = None"
  shows "list_all (parentDeleted (em_node ev)) (messages (snd (visit history ev w)))"
proof (cases "emit history ev (seenAs (em_node ev) w)")
  case (Pair r v)
  then have "r = None" using assms by (cases r) (simp_all add: visit_def andThen_def)
  then have "snd (visit history ev w) = seenAs (deleteParent (em_node ev)) v"
    using assms(1) Pair by (simp add: visit_def andThen_def)
  then show ?thesis by (simp add: seenAs_deleted)
qed

text \<open>
  C8, as stated: the traversal driver writes no field of a node, so that every
  notification delivers a node of the tree as the parser built it.  It does not: on
  entering a node the driver assigns \<open>node.parent\<close>, and the listeners of the child of a
  two-node tree receive a node that is none of the parsed ones.
\<close>

theorem traverse_counterexample:
  "\<not> (\<forall>ast. asParsed ast \<longrightarrow> list_all (\<lambda>ev. list_ex (\<lambda>n. n = em_node ev) (nodesOf ast)) (traverse None ast))"
proof
  assume "\<forall>ast. asParsed ast \<longrightarrow> list_all (\<lambda>ev. list_ex (\<lambda>n. n = em_node ev) (nodesOf ast)) (traverse None ast)"
  then have "asParsed twoNodes \<longrightarrow> list_all (\<lambda>ev. list_ex (\<lambda>n. n = em_node ev) (nodesOf twoNodes)) (traverse None twoNodes)"
    by blast
  then show False
    by (simp add: twoNodes_def setParent_def deleteParent_def)
qed

text \<open>
  C8, amended.  The driver writes one field, \<open>parent\<close>, and only for the time the
  listeners of an entry run.  For a tree as parsed, the notifications are exactly those
  of the walk that writes nothing, with \<open>parent\<close> set on the node entered to the node
  whose child it is (none for the root) and with the parsed node itself on exit; every
  parent the listeners see is a node of the parsed tree, itself without \<open>parent\<close>,
  among whose children the node entered is; every node is left without \<open>parent\<close>.  When
  the listeners of an entry have returned, the node has no \<open>parent\<close> in any message
  that refers to it.
\<close>

theorem traverse_sets_parent:
  "(asParsed ast \<longrightarrow>
      traverse None ast = map notified (walk None ast)
      \<and> list_all (parentAsParsed ast) (traverse None ast)
      \<and> list_all (\<lambda>ev. em_exit ev \<longrightarrow> nparent (em_node ev) = None) (traverse None ast))
   \<and> (\<not> em_exit ev \<and> fst (visit history ev w) = None \<longrightarrow>
        list_all (parentDeleted (em_node ev)) (messages (snd (visit history ev w))))"
proof -
  have "asParsed ast \<longrightarrow>
      traverse None ast = map notified (walk None ast)
      \<and> list_all (parentAsParsed ast) (traverse None ast)
      \<and> list_all (\<lambda>ev. em_exit ev \<longrightarrow> nparent (em_node ev) = None) (traverse None ast)"
    using traverse_walk [of ast None] traverse_parentAsParsed [of ast]
      traverse_leave [of None ast] by blast
  moreover have "\<not> em_exit ev \<and> fst (visit history ev w) = None \<longrightarrow>
        list_all (parentDeleted (em_node ev)) (messages (snd (visit history ev w)))"
    using visit_deletes [of ev history w] by blast
  ultimately show ?thesis by blast
qed

theorem traverse_sets_parent_witness:
  "traverse None threeLevels =
     [\<lparr>em_node = threeLevels, em_exit = False\<rparr>,
      \<lparr>em_node = setParent contractNode (Some threeLevels), em_exit = False\<rparr>,
      \<lparr>em_node = Node ''Identifier'' 2 9 (Some contractNode) [], em_exit = False\<rparr>,
      \<lparr>em_node = Node ''Identifier'' 2 9 None [], em_exit = True\<rparr>,
      \<lparr>em_node = contractNode, em_exit = True\<rparr>,
      \<lparr>em_node = threeLevels, em_exit = True\<rparr>]
   \<and> map notified (walk None threeLevels) = traverse None threeLevels
   \<and> list_all (parentAsParsed threeLevels) (traverse None threeLevels)
   \<and> messages (snd (visit []
         \<lparr>em_node = Node ''Identifier'' 2 9 (Some contractNode) [], em_exit = False\<rparr>
         (snd (configure sampleEnv ''uint c;'' 0 False sampleWorld))))
       = [ignoredFix, found 2 9]
   \<and> list_all (parentDeleted (Node ''Identifier'' 2 9 (Some contractNode) []))
       [ignoredFix, found 2 9]"
proof -
  let ?ev = "\<lparr>em_node = Node ''Identifier'' 2 9 (Some contractNode) [], em_exit = False\<rparr>"
  let ?w = "snd (configure sampleEnv ''uint c;'' 0 False sampleWorld)"
  have a: "asParsed threeLevels" by (simp add: threeLevels_def contractNode_def)
  have t: "traverse None threeLevels =
     [\<lparr>em_node = threeLevels, em_exit = False\<rparr>,
      \<lparr>em_node = setParent contractNode (Some threeLevels), em_exit = False\<rparr>,
      \<lparr>em_node = Node ''Identifier'' 2 9 (Some contractNode) [], em_exit = False\<rparr>,
      \<lparr>em_node = Node ''Identifier'' 2 9 None [], em_exit = True\<rparr>,
      \<lparr>em_node = contractNode, em_exit = True\<rparr>,
      \<lparr>em_node = threeLevels, em_exit = True\<rparr>]"
    by (simp add: threeLevels_def contractNode_def setParent_def deleteParent_def)
  have v: "\<not> em_exit ?ev \<and> fst (visit [] ?ev ?w) = None"
    and m: "messages (snd (visit [] ?ev ?w)) = [ignoredFix, found 2 9]"
    by (simp_all add: lint_defs sample_defs report_defs out_defs contractNode_def)
  from traverse_sets_parent [of threeLevels ?ev "[]" ?w] a v
  have e: "traverse None threeLevels = map notified (walk None threeLevels)"
    and p: "list_all (parentAsParsed threeLevels) (traverse None threeLevels)"
    and d: "list_all (parentDeleted (em_node ?ev)) (messages (snd (visit [] ?ev ?w)))"
    by blast+
  from d have d': "list_all (parentDeleted (Node ''Identifier'' 2 9 (Some contractNode) []))
       [ignoredFix, found 2 9]"
    unfolding m by simp
  show ?thesis by (intro conjI t e [symmetric] p m d')
qed

section \<open>The state while lint runs\<close>

lemma advances_refl: "advances w w"
  by (simp add: advances_def)

lemma advances_trans:
  assumes "advances w w1" and "advances w1 w2"
  shows "advances w w2"
  using assms unfolding advances_def by auto

lemma advances_push: "wellPlaced m \<Longrightarrow> advances w (w\<lparr>messages := messages w @ [m]\<rparr>)"
  by (simp add: advances_def)

lemma advances_subscribe: "advances w (subscribe ctx subs w)"
  by (simp add: advances_def subscribe_def)

lemma advances_writeConfig: "advances w (writeConfig f w)"
  by (auto simp: advances_def writeConfig_def lookup_def split: option.splits if_splits)

lemma advances_seenAs: "advances w (seenAs n w)"
  by (auto simp: advances_def seenAs_def list_all_iff wellPlaced_def split: option.splits)

lemma advances_andThen:
  assumes "advances w (snd r)" and "\<And>v. advances v (snd (f v))"
  shows "advances w (snd (andThen r f))"
proof (cases r)
  case (Pair e v)
  show ?thesis
  proof (cases e)
    case None
    then show ?thesis using Pair assms(1) assms(2) [of v]
      by (auto simp: andThen_def intro: advances_trans)
  next
    case (Some x)
    then show ?thesis using Pair assms(1) by (simp add: andThen_def)
  qed
qed

lemma advances_forEach:
  assumes "\<And>x v. advances v (snd (f x v))"
  shows "advances w (snd (forEach f xs w))"
proof (induction xs arbitrary: w)
  case Nil
  show ?case by (simp add: advances_refl)
next
  case (Cons x xs)
  show ?case using assms [of w x] Cons.IH by (simp add: advances_andThen)
qed

lemma wellPlaced_internalMessage: "wellPlaced (internalMessage i)"
  by (simp add: internalMessage_def wellPlaced_def)

lemma advances_reportInternal: "advances w (snd (reportInternal a w))"
  by (cases a) (simp_all add: advances_refl advances_push internalMessage_def wellPlaced_def)

lemma wellPlaced_reportedMessage:
  "wellPlaced ((reportedMessage e n)\<lparr>m_fix := f\<rparr>)" "wellPlaced (reportedMessage e n)"
  by (simp_all add: reportedMessage_def wellPlaced_def)

lemma advances_pushed: "wellPlaced m \<Longrightarrow> advances w (snd (push m w))"
  by (simp add: push_def advances_push)

lemma advances_report: "advances w (snd (report a w))"
proof (cases a)
  case NotAnObject
  then show ?thesis by (simp add: advances_refl)
next
  case (IssueObject e)
  have q: "advances w (snd (andThen (reportInternal t w) (push m)))" if "wellPlaced m" for m t
    using that by (intro advances_andThen advances_reportInternal advances_pushed)
  show ?thesis using IssueObject
    by (auto simp: advances_refl advances_pushed q wellPlaced_reportedMessage
        simp del: reportInternal.simps split: option.splits fixval.splits)
qed

lemma advances_contextReport: "advances w (snd (contextReport ctx a w))"
  by (cases a) (simp_all add: contextReport_def advances_report del: report.simps)

lemma advances_perform: "advances w (snd (perform ctx c w))"
  by (cases c) (simp_all add: perform_def advances_contextReport advances_refl)

lemma advances_notify: "advances w (snd (notify history l w))"
  unfolding notify_def by (rule advances_forEach) (rule advances_perform)

lemma advances_emit: "advances w (snd (emit history ev w))"
  unfolding emit_def by (rule advances_forEach) (rule advances_notify)

lemma advances_visit: "advances w (snd (visit history ev w))"
proof (cases "em_exit ev")
  case True
  then show ?thesis by (simp add: visit_def advances_emit)
next
  case False
  have "advances (seenAs (em_node ev) w)
      (snd (andThen (emit history ev (seenAs (em_node ev) w))
         (\<lambda>w'. (None, seenAs (deleteParent (em_node ev)) w'))))"
    by (rule advances_andThen) (simp_all add: advances_emit advances_seenAs)
  then show ?thesis using False advances_seenAs [of w "em_node ev"]
    by (auto simp: visit_def intro: advances_trans)
qed

lemma advances_runTraversal: "advances w (snd (runTraversal history evs w))"
proof (induction evs arbitrary: history w)
  case Nil
  show ?case by (simp add: advances_refl)
next
  case (Cons ev evs)
  show ?case using Cons.IH by (simp add: advances_andThen advances_visit)
qed

lemma advances_parseAndTraverse: "advances w (snd (parseAndTraverse env s w))"
  by (simp add: parseAndTraverse_def advances_refl advances_runTraversal split: sum.splits)

lemma advances_storeRules: "advances w (snd (storeRules result w))"
  by (simp add: storeRules_def advances_refl advances_writeConfig split: sum.splits)

lemma advances_loadRules: "advances w (snd (loadRules env w))"
  unfolding loadRules_def
  by (auto simp: advances_refl advances_storeRules Let_def advances_push
        wellPlaced_internalMessage
      intro!: advances_andThen split: option.splits)

lemma advances_configureRule: "advances w (snd (configureRule env entry w))"
  unfolding configureRule_def Let_def
  by (auto simp: advances_refl advances_subscribe advances_push wellPlaced_internalMessage
      intro!: advances_andThen split: option.splits sum.splits)

lemma advances_configureRules: "advances w (snd (configureRules env w))"
  unfolding configureRules_def
  by (auto simp: advances_refl intro!: advances_forEach advances_configureRule
      split: option.splits rules_field.splits)

lemma advances_configure:
  "advances (prepare s c nr w) (snd (configure env s c nr w))"
  unfolding configure_def
  by (intro advances_andThen advances_loadRules advances_configureRules)


lemma prepare_eq:
  "prepare s c nr w = (if nr then w else reset w)\<lparr>sourceCodeText := s,
     currentConfig := Some (length (heap (if nr then w else reset w))),
     heap := heap (if nr then w else reset w)
       @ [ensureOptions (heap (if nr then w else reset w) ! c)]\<rparr>"
  by (simp add: prepare_def Let_def writeConfig_def lookup_def)

lemma prepare_heap:
  "take (length (heap w)) (heap (prepare s c nr w)) = heap w"
  "\<exists>a. currentConfig (prepare s c nr w) = Some a \<and> length (heap w) \<le> a"
  by (simp_all add: prepare_eq reset_def)

lemma prepare_messages: "messages (prepare s c nr w) = (if nr then messages w else [])"
  by (simp add: prepare_eq reset_def)

lemma prepare_reset:
  "prepare s c False (w\<lparr>messages := ms, sourceCodeText := t, currentConfig := cc, listeners := ls\<rparr>)
     = prepare s c False w"
  by (simp add: prepare_eq reset_def)

lemma advances_heap:
  assumes "advances v v'" and "currentConfig v = Some a" and "n \<le> a"
  shows "take n (heap v') = take n (heap v)"
  using assms unfolding advances_def by (auto intro!: nth_equalityI)

lemma advances_messages:
  assumes "advances v v'" and "list_all wellPlaced (messages v)"
  shows "list_all wellPlaced (messages v')"
  using assms unfolding advances_def by auto

lemma collect_heap: "heap (snd (collect w)) = heap w"
  by (simp add: collect_def Let_def split: option.splits)

lemma advances_traversed: "advances (prepare s c nr w) (snd (traversed env s c nr w))"
  unfolding traversed_def
  by (intro advances_andThen advances_configure advances_parseAndTraverse)

lemma lintString_cases:
  "lintString env s c nr w = (Inl invalidConfig, w)
   \<or> (lintString env s c nr w = (case traversed env s c nr w of
          (Some e, w') \<Rightarrow> (Inl e, w') | (None, w') \<Rightarrow> collect w'))"
  by (simp add: lintString_def traversed_def split: option.splits)

lemma lintString_heap:
  "take (length (heap w)) (heap (snd (lintString env s c nr w))) = heap w"
proof -
  obtain a where a: "currentConfig (prepare s c nr w) = Some a" "length (heap w) \<le> a"
    using prepare_heap(2) by blast
  have t: "take (length (heap w)) (heap (snd (traversed env s c nr w))) = heap w"
    using advances_heap [OF advances_traversed a] prepare_heap(1) by simp
  show ?thesis
  proof (cases "traversed env s c nr w")
    case (Pair r v)
    then show ?thesis using lintString_cases [of env s c nr w] t
      by (cases r) (auto simp: collect_heap)
  qed
qed

lemma lint_cases:
  "(\<exists>e. lint env src c nr w = (Inl e, w))
   \<or> (\<exists>s. s \<noteq> [] \<and> (src = SourceString s \<or> src = SourceBuffer s)
        \<and> lint env src c nr w = lintString env s c nr w)"
  by (cases src) (auto simp: lint_def bufferToString_def toString_def)

section \<open>The order of the returned list\<close>

lemma compare_byPosition: "(compareMessages a b \<le> 0) = byPosition a b"
  by (auto simp: compareMessages_def byPosition_def Let_def)

lemma sorted_messages: "sorted_wrt byPosition (sortBy (\<lambda>a b. compareMessages a b \<le> 0) ms)"
  unfolding compare_byPosition
  by (rule sorted_sortBy) (auto simp: byPosition_def)

lemma collect_result:
  assumes "collect v = (Inr out, v')"
  shows "sorted_wrt byPosition out \<and> set out \<subseteq> set (messages v)"
proof -
  from assms obtain kept where "out = sortBy (\<lambda>a b. compareMessages a b \<le> 0) kept"
    and "set kept \<subseteq> set (messages v)"
    by (auto simp: collect_def Let_def split: option.splits if_splits)
  then show ?thesis by (simp add: sorted_messages set_sortBy)
qed

lemma internal_first:
  assumes s: "sorted_wrt byPosition out" and wp: "list_all wellPlaced out"
    and i: "i < length out" and j: "j < length out"
    and int: "m_internal (out ! i)" and after: "afterSentinel (out ! j)"
  shows "i < j"
proof (rule ccontr)
  assume n: "\<not> i < j"
  have at: "m_line (out ! i) = - 1" "m_column (out ! i) = - 1"
    using wp i int by (auto simp: list_all_length wellPlaced_def)
  have "i \<noteq> j" using at after by (auto simp: afterSentinel_def)
  with n have "j < i" by simp
  then have "byPosition (out ! j) (out ! i)" using s i by (simp add: sorted_wrt_iff_nth_less)
  then show False using at after by (auto simp: byPosition_def afterSentinel_def)
qed

lemma lint_collects:
  assumes "lint env src c nr w = (Inr out, w')"
  shows "\<exists>v. advances (prepare (case src of SourceString s \<Rightarrow> s | SourceBuffer s \<Rightarrow> s | _ \<Rightarrow> []) c nr w) v
     \<and> collect v = (Inr out, w')"
proof -
  from lint_cases [of env src c nr w] assms obtain s
    where s: "src = SourceString s \<or> src = SourceBuffer s"
      and l: "lintString env s c nr w = (Inr out, w')"
    by auto
  obtain r v where t: "traversed env s c nr w = (r, v)" by (cases "traversed env s c nr w")
  from lintString_cases [of env s c nr w] l t have "collect v = (Inr out, w')"
    by (cases r) auto
  moreover have "advances (prepare s c nr w) v"
    using advances_traversed [of s c nr w env] t by simp
  ultimately show ?thesis using s by auto
qed

text \<open>
  The buffer is private to the module, and every function that fills it keeps it
  well placed; so is the initial, empty buffer.
\<close>

lemma collect_messages: "list_all wellPlaced (messages v) \<Longrightarrow> list_all wellPlaced (messages (snd (collect v)))"
  by (simp add: collect_def Let_def split: option.splits)

lemma wellPlaced_kept:
  assumes "list_all wellPlaced (messages w)"
  shows "list_all wellPlaced (messages (snd (report a w)))"
    and "list_all wellPlaced (messages (snd (reportInternal a w)))"
    and "list_all wellPlaced (messages (reset w))"
    and "list_all wellPlaced (messages (snd (lint env src c nr w)))"
proof -
  show "list_all wellPlaced (messages (snd (report a w)))"
    using advances_messages [OF advances_report assms] .
  show "list_all wellPlaced (messages (snd (reportInternal a w)))"
    using advances_messages [OF advances_reportInternal assms] .
  show "list_all wellPlaced (messages (reset w))"
    by (simp add: reset_def)
  have p: "list_all wellPlaced (messages (prepare s c nr w))" for s
    using assms by (simp add: prepare_messages)
  have t: "list_all wellPlaced (messages (snd (traversed env s c nr w)))" for s
    using advances_messages [OF advances_traversed p] .
  have "list_all wellPlaced (messages (snd (lintString env s c nr w)))" for s
  proof (cases "traversed env s c nr w")
    case (Pair r v)
    then show ?thesis using lintString_cases [of env s c nr w] t [of s] assms
      by (cases r) (auto simp: collect_messages)
  qed
  then show "list_all wellPlaced (messages (snd (lint env src c nr w)))"
    using lint_cases [of env src c nr w] assms by auto
qed


lemma collect_empties: "collect v = (Inr out, v') \<Longrightarrow> messages v' = []"
  by (auto simp: collect_def Let_def split: option.splits)

lemma lint_empties:
  assumes "lint env src c nr w = (Inr out, w')"
  shows "messages w' = []"
  using lint_collects [OF assms] collect_empties by blast

text \<open>
  C1, as stated: in the list \<open>lint\<close> returns every internal diagnostic comes before
  every diagnostic a rule reported.  Not when a rule supplies a line below the sentinel
  \<open>-1\<close>: \<open>report\<close> stores the line of \<open>location\<close> as given, and with the rules old and
  displaced enabled the diagnostic that displaced reports at line \<open>-5\<close> is returned
  before the deprecation notice of old.
\<close>

theorem lint_internal_first_counterexample:
  "fst (lint sampleEnv (SourceString ''uint c;'') 0 False displacedWorld)
     = Inr [displaced, oldNotice]
   \<and> \<not> m_internal displaced \<and> m_internal oldNotice"
  by (simp add: lint_defs sample_defs report_defs out_defs)

text \<open>
  C1, amended.  The list a \<open>lint\<close> call returns is sorted ascending by line, then
  column, and every internal diagnostic in it comes before every diagnostic a rule
  reported at a position after the sentinel \<open>(-1, -1)\<close>, as every position in a source
  text is, whatever the order of the reports.  (With \<open>noReset\<close> the buffer the call
  starts from is taken to be well placed, as every buffer is that \<open>report\<close>,
  \<open>reportInternal\<close>, \<open>reset\<close> and \<open>lint\<close> have filled.)
\<close>

theorem lint_sorted_internal_first:
  assumes "lint env sourceCode config noReset w = (Inr errorObjects, w')"
    and "noReset \<longrightarrow> list_all wellPlaced (messages w)"
  shows "sorted_wrt byPosition errorObjects
    \<and> (\<forall>i j. i < length errorObjects \<and> j < length errorObjects
          \<and> m_internal (errorObjects ! i) \<and> \<not> m_internal (errorObjects ! j)
          \<and> afterSentinel (errorObjects ! j) \<longrightarrow> i < j)"
proof -
  from lint_collects [OF assms(1)] obtain s v
    where a: "advances (prepare s config noReset w) v" and c: "collect v = (Inr errorObjects, w')"
    by blast
  have "list_all wellPlaced (messages (prepare s config noReset w))"
    using assms(2) by (simp add: prepare_messages)
  then have "list_all wellPlaced (messages v)" using a by (rule advances_messages [rotated])
  then have wp: "list_all wellPlaced errorObjects"
    using collect_result [OF c] by (auto simp: list_all_iff)
  have s: "sorted_wrt byPosition errorObjects" using collect_result [OF c] by simp
  show ?thesis using s internal_first [OF s wp] by blast
qed

lemma run0: "fst (lint sampleEnv (SourceString ''uint B; uint A = 1;'') 0 False sampleWorld)
   = Inr [ignoredFix, ignoredFix, found 2 7, found 5 2]"
  by (simp add: lint_defs sample_defs report_defs out_defs)

lemma run1: "messages (snd (lint sampleEnv (SourceString ''uint B; uint A = 1;'') 1 False sampleWorld))
     = [ignoredFix, found 5 2, ignoredFix, found 2 7]"
  by (simp add: lint_defs sample_defs report_defs out_defs)

lemma run2: "fst (lint sampleEnv (SourceString ''contract {}'') 2 True
       (snd (lint sampleEnv (SourceString ''uint B; uint A = 1;'') 1 False sampleWorld)))
     = Inr [ignoredFix, ignoredFix, found 2 7, found 5 2]"
  by (simp add: lint_defs sample_defs report_defs out_defs)

theorem lint_sorted_internal_first_witness:
  "fst (lint sampleEnv (SourceString ''contract {}'') 2 True
       (snd (lint sampleEnv (SourceString ''uint B; uint A = 1;'') 1 False sampleWorld)))
     = Inr [ignoredFix, ignoredFix, found 2 7, found 5 2]
   \<and> sorted_wrt byPosition [ignoredFix, ignoredFix, found 2 7, found 5 2]
   \<and> m_internal ignoredFix \<and> \<not> m_internal (found 2 7) \<and> afterSentinel (found 2 7)"
proof -
  let ?w = "snd (lint sampleEnv (SourceString ''uint B; uint A = 1;'') 1 False sampleWorld)"
  have run: "lint sampleEnv (SourceString ''contract {}'') 2 True ?w
     = (Inr [ignoredFix, ignoredFix, found 2 7, found 5 2],
        snd (lint sampleEnv (SourceString ''contract {}'') 2 True ?w))"
    using run2 by (simp add: prod_eq_iff)
  have "True \<longrightarrow> list_all wellPlaced (messages ?w)"
    unfolding run1 by (simp add: wellPlaced_def ignoredFix_def found_def internalMessage_def)
  from lint_sorted_internal_first [OF run this] run2 show ?thesis
    by (simp add: ignoredFix_def found_def internalMessage_def afterSentinel_def)
qed

text \<open>
  The same end to end: with the rule mixedcase, which reports fixes and has no
  \<open>fixable\<close>, \<open>lintAndFix\<close> applies no fix and returns the source as it was.
\<close>

lemma lintAndFix_applies_no_ignored_fix:
  "fst (lintAndFix sampleEnv (SourceString ''uint B; uint A = 1;'') 0 False sampleWorld)
     = Inr \<lparr>originalSourceCode = ''uint B; uint A = 1;'', fixesApplied = 0,
         fixedSourceCode = ''uint B; uint A = 1;'',
         errorMessages = [ignoredFix, ignoredFix, found 2 7, found 5 2]\<rparr>"
  by (simp add: lintAndFix_def applyFixes_def editsOf_def lint_defs sample_defs report_defs out_defs)

section \<open>States that agree\<close>

lemma readConfig_prepare:
  assumes "lookup (heap w) c = Some cfg"
  shows "readConfig (prepare s c nr w) = Some (ensureOptions cfg)"
  using assms
  by (auto simp: prepare_eq readConfig_def lookup_def reset_def nth_append split: if_splits)

lemma sourceCodeText_prepare: "sourceCodeText (prepare s c nr w) = s"
  by (simp add: prepare_eq)

lemma alike_andThen:
  assumes "alike r r'" and "\<And>v v'. agree v v' \<Longrightarrow> alike (f v) (f v')"
  shows "alike (andThen r f) (andThen r' f)"
proof (cases r; cases r')
  fix e v e' v'
  assume r: "r = (e, v)" "r' = (e', v')"
  then have "e' = e" and a: "agree v v'" using assms(1) by (simp_all add: alike_def)
  then show ?thesis using r assms(2) [OF a] by (cases e) (simp_all add: andThen_def alike_def)
qed

lemma alike_forEach:
  assumes "\<And>x v v'. agree v v' \<Longrightarrow> alike (f x v) (f x v')"
  shows "agree v v' \<Longrightarrow> alike (forEach f xs v) (forEach f xs v')"
proof (induction xs arbitrary: v v')
  case Nil
  then show ?case by (simp add: alike_def)
next
  case (Cons x xs)
  show ?case using assms [OF Cons.prems] Cons.IH by (simp add: alike_andThen)
qed

lemma readConfig_same:
  "readConfig (v\<lparr>messages := ms\<rparr>) = readConfig v"
  "readConfig (v\<lparr>listeners := ls\<rparr>) = readConfig v"
  by (simp_all add: readConfig_def split: option.splits)

lemma alike_reportInternal: "agree v v' \<Longrightarrow> alike (reportInternal a v) (reportInternal a v')"
  by (cases a) (simp_all add: alike_def agree_def readConfig_same)

lemma alike_push: "agree v v' \<Longrightarrow> alike (push m v) (push m v')"
  by (simp add: push_def alike_def agree_def readConfig_same)

lemma alike_when:
  "agree v v' \<Longrightarrow> alike (if b then reportInternal a v else (None, v))
     (if b then reportInternal a v' else (None, v'))"
  using alike_reportInternal [of v v' a] by (cases b) (simp_all add: alike_def)

lemma alike_skip: "agree v v' \<Longrightarrow> alike (None, v) (None, v')"
  by (simp add: alike_def)

lemma alike_throw: "agree v v' \<Longrightarrow> alike (Some e, v) (Some e, v')"
  by (simp add: alike_def)

lemma alike_report:
  assumes a: "agree v v'"
  shows "alike (report a v) (report a v')"
proof (cases a)
  case NotAnObject
  then show ?thesis using a by (simp add: alike_def)
next
  case (IssueObject e)
  have q: "alike (andThen (reportInternal t v) (push m)) (andThen (reportInternal t v') (push m))"
    for m t
    using a by (intro alike_andThen alike_reportInternal alike_push)
  show ?thesis using IssueObject a
    by (auto simp: alike_push q alike_throw
        simp del: reportInternal.simps split: option.splits fixval.splits)
qed

lemma alike_contextReport: "agree v v' \<Longrightarrow> alike (contextReport ctx a v) (contextReport ctx a v')"
  by (cases a) (simp_all add: contextReport_def alike_report del: report.simps)

lemma alike_perform: "agree v v' \<Longrightarrow> alike (perform ctx c v) (perform ctx c v')"
  by (cases c) (simp_all add: perform_def alike_contextReport alike_throw)

lemma alike_notify: "agree v v' \<Longrightarrow> alike (notify history l v) (notify history l v')"
  unfolding notify_def by (rule alike_forEach) (rule alike_perform)

lemma alike_emit: 
  assumes "agree v v'" 
  shows "alike (emit history ev v) (emit history ev v')"
proof -
  have "listeners v' = listeners v" using assms by (simp add: agree_def)
  then show ?thesis unfolding emit_def using alike_forEach [of "notify (history @ [ev])", OF alike_notify assms]
    by simp
qed

lemma agree_seenAs: "agree v v' \<Longrightarrow> agree (seenAs n v) (seenAs n v')"
  by (simp add: agree_def seenAs_def readConfig_same)

lemma alike_visit: 
  assumes "agree v v'" 
  shows "alike (visit history ev v) (visit history ev v')"
proof (cases "em_exit ev")
  case True
  then show ?thesis using assms by (simp add: visit_def alike_emit)
next
  case False
  have "alike (andThen (emit history ev (seenAs (em_node ev) v))
         (\<lambda>w'. (None, seenAs (deleteParent (em_node ev)) w')))
       (andThen (emit history ev (seenAs (em_node ev) v'))
         (\<lambda>w'. (None, seenAs (deleteParent (em_node ev)) w')))"
  proof (rule alike_andThen)
    show "alike (emit history ev (seenAs (em_node ev) v)) (emit history ev (seenAs (em_node ev) v'))"
      by (rule alike_emit) (rule agree_seenAs [OF assms])
    show "alike (None, seenAs (deleteParent (em_node ev)) u) (None, seenAs (deleteParent (em_node ev)) u')"
      if "agree u u'" for u u'
      using agree_seenAs [OF that] by (simp add: alike_def)
  qed
  then show ?thesis using False by (simp add: visit_def)
qed

lemma alike_runTraversal: 
  "agree v v' \<Longrightarrow> alike (runTraversal history evs v) (runTraversal history evs v')"
proof (induction evs arbitrary: history v v')
  case Nil
  then show ?case by (simp add: alike_def)
next
  case (Cons ev evs)
  show ?case using Cons by (simp add: alike_andThen alike_visit)
qed

lemma alike_parseAndTraverse: 
  "agree v v' \<Longrightarrow> alike (parseAndTraverse env s v) (parseAndTraverse env s v')"
  by (simp add: parseAndTraverse_def alike_throw alike_runTraversal split: sum.splits)

lemma readConfig_written: "readConfig (writeConfig f v) = map_option f (readConfig v)"
  by (auto simp: readConfig_def writeConfig_def lookup_def split: option.splits if_splits)

lemma writeConfig_same: 
  "messages (writeConfig f v) = messages v" "sourceCodeText (writeConfig f v) = sourceCodeText v"
  "listeners (writeConfig f v) = listeners v"
  by (simp_all add: writeConfig_def split: option.splits)

lemma agree_writeConfig: "agree v v' \<Longrightarrow> agree (writeConfig f v) (writeConfig f v')"
  by (simp add: agree_def readConfig_written writeConfig_same)

lemma alike_storeRules: "agree v v' \<Longrightarrow> alike (storeRules r v) (storeRules r v')"
  by (simp add: storeRules_def alike_def agree_writeConfig split: sum.splits)

lemma alike_loadRules: 
  assumes "agree v v'"
  shows "alike (loadRules env v) (loadRules env v')"
proof -
  have r: "readConfig v' = readConfig v" using assms by (simp add: agree_def)
  show ?thesis 
  proof (cases "readConfig v")
    case None
    then show ?thesis using r assms by (simp add: loadRules_def alike_throw)
  next
    case (Some cfg)
    have "alike (andThen (reportInternal a v) (\<lambda>w1. andThen (if b then reportInternal c w1 else (None, w1)) (storeRules d)))
      (andThen (reportInternal a v') (\<lambda>w1. andThen (if b then reportInternal c w1 else (None, w1)) (storeRules d)))" for a b c d
      by (intro alike_andThen alike_reportInternal alike_storeRules alike_when assms)
    then show ?thesis using r Some assms
      by (simp add: loadRules_def Let_def alike_storeRules del: reportInternal.simps)
  qed
qed

lemma agree_subscribe: "agree v v' \<Longrightarrow> agree (subscribe ctx subs v) (subscribe ctx subs v')"
  by (simp add: agree_def subscribe_def readConfig_same)

lemma alike_configureRule:
  assumes "agree v v'"
  shows "alike (configureRule env entry v) (configureRule env entry v')"
proof -
  have k: "alike (case verify r \<lparr>ctx_name = n, ctx_config = c, ctx_meta = m, ctx_source = sourceCodeText u\<rparr> of
             Inl e \<Rightarrow> (Some e, u) | Inr subs \<Rightarrow> (None, subscribe \<lparr>ctx_name = n, ctx_config = c, ctx_meta = m, ctx_source = sourceCodeText u\<rparr> subs u))
           (case verify r \<lparr>ctx_name = n, ctx_config = c, ctx_meta = m, ctx_source = sourceCodeText u'\<rparr> of
             Inl e \<Rightarrow> (Some e, u') | Inr subs \<Rightarrow> (None, subscribe \<lparr>ctx_name = n, ctx_config = c, ctx_meta = m, ctx_source = sourceCodeText u'\<rparr> subs u'))"
    if "agree u u'" for u u' r n c m
  proof -
    have "sourceCodeText u' = sourceCodeText u" using that by (simp add: agree_def)
    then show ?thesis using that agree_subscribe [OF that]
      by (simp add: alike_def split: sum.splits)
  qed
  have h: "alike (if d then reportInternal a v else (None, v)) (if d then reportInternal a v' else (None, v'))" for d a
    using assms by (rule alike_when)
  show ?thesis unfolding configureRule_def Let_def
    using assms
    by (auto simp: alike_throw alike_skip alike_reportInternal k h intro!: alike_andThen
        split: option.splits simp del: reportInternal.simps)
qed

lemma alike_configureRules:
  assumes "agree v v'"
  shows "alike (configureRules env v) (configureRules env v')"
proof -
  have r: "readConfig v' = readConfig v" using assms by (simp add: agree_def)
  show ?thesis unfolding configureRules_def r using assms
    by (auto simp: alike_throw intro!: alike_forEach alike_configureRule
      split: option.splits rules_field.splits)
qed

lemma alike_collect:
  assumes "agree v v'"
  shows "fst (collect v') = fst (collect v)"
  using assms by (simp add: collect_def agree_def Let_def split: option.splits)

lemma agree_prepare:
  assumes "lookup (heap v) c = Some cfg" and "lookup (heap v') c = Some cfg"
  shows "agree (prepare s c False v) (prepare s c False v')"
  using assms
  by (simp add: agree_def readConfig_prepare sourceCodeText_prepare prepare_messages)
     (simp add: prepare_eq reset_def)

lemma lint_agree:
  assumes "lookup (heap v) c = Some cfg" and "lookup (heap v') c = Some cfg"
  shows "fst (lint env src c False v') = fst (lint env src c False v)"
proof -
  have "fst (lintString env s c False v') = fst (lintString env s c False v)" for s
  proof -
    have t: "alike (traversed env s c False v) (traversed env s c False v')"
      unfolding traversed_def configure_def
      by (intro alike_andThen alike_loadRules alike_configureRules alike_parseAndTraverse)
         (simp_all add: alike_def alike_loadRules [unfolded alike_def] agree_prepare [OF assms])
    obtain r u where u: "traversed env s c False v = (r, u)" by (cases "traversed env s c False v")
    obtain r' u' where u': "traversed env s c False v' = (r', u')" by (cases "traversed env s c False v'")
    have "r' = r" "agree u u'" using t u u' by (simp_all add: alike_def)
    then show ?thesis using assms u u' alike_collect [of u u']
      by (cases r) (simp_all add: lintString_def traversed_def)
  qed
  then show ?thesis by (simp add: lint_def split: sum.splits source_arg.splits)
qed

lemma lint_lookup:
  assumes "lookup (heap w) c = Some cfg"
  shows "lookup (heap (snd (lint env src c' nr w))) c = Some cfg"
proof -
  have t: "take (length (heap w)) (heap (snd (lint env src c' nr w))) = heap w"
    using lint_cases [of env src c' nr w] lintString_heap by auto
  have c: "c < length (heap w)" "heap w ! c = cfg"
    using assms by (auto simp: lookup_def split: if_splits)
  have "length (heap w) \<le> length (heap (snd (lint env src c' nr w)))"
    using arg_cong [OF t, of length] by simp
  moreover have "heap (snd (lint env src c' nr w)) ! c = heap w ! c"
    using t c(1) by (metis nth_take)
  ultimately show ?thesis using c by (simp add: lookup_def)
qed

section \<open>Between two calls\<close>

text \<open>
  C3, as stated: the state is reinitialised at the start of every \<open>lint\<close> call, so the
  list of a second call holds nothing of the first.  A call with \<open>noReset\<close> does not
  reset: after a first call that the rule broken aborts during the traversal, the two
  diagnostics and two warnings of the first call are still in the buffer, and a second
  call with \<open>noReset\<close>, on a source with no identifier, returns them; without
  \<open>noReset\<close> it returns none.
\<close>

theorem lint_noReset_counterexample:
  "messages (snd (lint sampleEnv (SourceString ''uint B; uint A = 1;'') 1 False sampleWorld))
     = [ignoredFix, found 5 2, ignoredFix, found 2 7]
   \<and> fst (lint sampleEnv (SourceString ''contract {}'') 2 True
       (snd (lint sampleEnv (SourceString ''uint B; uint A = 1;'') 1 False sampleWorld)))
     = Inr [ignoredFix, ignoredFix, found 2 7, found 5 2]
   \<and> fst (lint sampleEnv (SourceString ''contract {}'') 2 False
       (snd (lint sampleEnv (SourceString ''uint B; uint A = 1;'') 1 False sampleWorld)))
     = Inr []"
  by (simp add: lint_defs sample_defs report_defs out_defs)

text \<open>
  C3, amended.  The state is reinitialised at the start of every \<open>lint\<close> call made
  without \<open>noReset\<close>, and the buffer is empty when a call, with or without \<open>noReset\<close>,
  has returned its list.  So a \<open>lint\<close> call without \<open>noReset\<close> returns the same
  whatever the messages, the source text, the current configuration and the listeners
  were when it was called, and, unless it is refused at the checks of its arguments,
  before the reset, leaves the same state.  Of two sequential calls, the second without
  \<open>noReset\<close> and on a configuration that was there before the first, the second
  returns what it returns when the first is not made: its list contains no diagnostic
  produced during the first call.
\<close>

theorem lint_reset_forgets:
  "fst (lint env sourceCode config False
      (w\<lparr>messages := ms, sourceCodeText := t, currentConfig := cc, listeners := ls\<rparr>))
   = fst (lint env sourceCode config False w)
   \<and> (fst (lint env sourceCode config False w) = Inl invalidSource
      \<or> fst (lint env sourceCode config False w) = Inl invalidConfig
      \<or> fst (lint env sourceCode config False w)
          = Inl (TypeError ''Cannot read property constructor of null'')
      \<or> lint env sourceCode config False
           (w\<lparr>messages := ms, sourceCodeText := t, currentConfig := cc, listeners := ls\<rparr>)
         = lint env sourceCode config False w)
   \<and> (lint env sourceCode config noReset w = (Inr errorObjects, w') \<longrightarrow> messages w' = [])
   \<and> (lookup (heap v) config \<noteq> None \<longrightarrow>
        fst (lint env sourceCode config False
               (snd (lint env sourceBefore configBefore noResetBefore v)))
        = fst (lint env sourceCode config False v))"
proof -
  have "fst (lint env sourceCode config False
      (w\<lparr>messages := ms, sourceCodeText := t, currentConfig := cc, listeners := ls\<rparr>))
   = fst (lint env sourceCode config False w)
   \<and> (fst (lint env sourceCode config False w) = Inl invalidSource
      \<or> fst (lint env sourceCode config False w) = Inl invalidConfig
      \<or> fst (lint env sourceCode config False w)
          = Inl (TypeError ''Cannot read property constructor of null'')
      \<or> lint env sourceCode config False
           (w\<lparr>messages := ms, sourceCodeText := t, currentConfig := cc, listeners := ls\<rparr>)
         = lint env sourceCode config False w)"
    by (simp add: lint_def lintString_def configure_def prepare_reset bufferToString_def
        split: sum.splits source_arg.splits option.splits prod.splits)
  moreover have "lint env sourceCode config noReset w = (Inr errorObjects, w')
      \<longrightarrow> messages w' = []"
    using lint_empties [of env sourceCode config noReset w errorObjects w'] by blast
  moreover have "fst (lint env sourceCode config False
               (snd (lint env sourceBefore configBefore noResetBefore v)))
        = fst (lint env sourceCode config False v)" if "lookup (heap v) config \<noteq> None"
  proof -
    from that obtain cfg where c: "lookup (heap v) config = Some cfg" by blast
    show ?thesis by (rule lint_agree [OF c lint_lookup [OF c]])
  qed
  ultimately show ?thesis by blast
qed

lemma run3: "fst (lint sampleEnv (SourceString ''contract {}'') 2 False sampleWorld) = Inr []"
  by (simp add: lint_defs sample_defs report_defs out_defs)

theorem lint_reset_forgets_witness:
  "fst (lint sampleEnv (SourceString ''contract {}'') 2 False
       (snd (lint sampleEnv (SourceString ''uint B; uint A = 1;'') 1 False sampleWorld)))
     = Inr []
   \<and> fst (lint sampleEnv (SourceString ''contract {}'') 2 False
       ((snd (lint sampleEnv (SourceString ''uint B; uint A = 1;'') 1 False sampleWorld))
          \<lparr>messages := [], sourceCodeText := [], currentConfig := None, listeners := []\<rparr>))
     = Inr []
   \<and> messages (snd (lint sampleEnv (SourceString ''uint B; uint A = 1;'') 1 False sampleWorld))
     = [ignoredFix, found 5 2, ignoredFix, found 2 7]
   \<and> messages (snd (lint sampleEnv (SourceString ''contract {}'') 2 True
       (snd (lint sampleEnv (SourceString ''uint B; uint A = 1;'') 1 False sampleWorld))))
     = []"
proof -
  let ?w = "snd (lint sampleEnv (SourceString ''uint B; uint A = 1;'') 1 False sampleWorld)"
  have run: "lint sampleEnv (SourceString ''contract {}'') 2 True ?w
     = (Inr [ignoredFix, ignoredFix, found 2 7, found 5 2],
        snd (lint sampleEnv (SourceString ''contract {}'') 2 True ?w))"
    using run2 by (simp add: prod_eq_iff)
  have there: "lookup (heap sampleWorld) 2 \<noteq> None"
    by (simp add: sampleWorld_def lookup_def)
  from lint_reset_forgets [where env = sampleEnv and sourceCode = "SourceString ''contract {}''"
      and config = 2 and w = ?w and ms = "[]" and t = "[]" and cc = None and ls = "[]"
      and noReset = True and errorObjects = "[ignoredFix, ignoredFix, found 2 7, found 5 2]"
      and w' = "snd (lint sampleEnv (SourceString ''contract {}'') 2 True ?w)"
      and v = sampleWorld and sourceBefore = "SourceString ''uint B; uint A = 1;''"
      and configBefore = 1 and noResetBefore = False]
    run run1 run3 there
  show ?thesis by simp
qed

section \<open>The configuration argument\<close>

text \<open>
  C10.  \<open>lint\<close> works on a copy of the configuration: every object the store held
  before the call, the \<open>config\<close> argument among them, is the same after it, whether
  the call returns or throws.
\<close>

theorem lint_keeps_config:
  "take (length (heap w)) (heap (snd (lint env sourceCode config noReset w))) = heap w
   \<and> (lookup (heap w) config = Some cfg
        \<longrightarrow> lookup (heap (snd (lint env sourceCode config noReset w))) config = Some cfg)"
proof -
  have t: "take (length (heap w)) (heap (snd (lint env sourceCode config noReset w))) = heap w"
    using lint_cases [of env sourceCode config noReset w] lintString_heap by auto
  have "lookup (heap (snd (lint env sourceCode config noReset w))) config = Some cfg"
    if "lookup (heap w) config = Some cfg"
  proof -
    have c: "config < length (heap w)" "heap w ! config = cfg"
      using that by (auto simp: lookup_def split: if_splits)
    have "length (heap w) \<le> length (heap (snd (lint env sourceCode config noReset w)))"
      using arg_cong [OF t, of length] by simp
    moreover have "heap (snd (lint env sourceCode config noReset w)) ! config = heap w ! config"
      using t c(1) by (metis nth_take)
    ultimately show ?thesis using c by (simp add: lookup_def)
  qed
  with t show ?thesis by blast
qed


theorem lint_keeps_config_witness:
  "lookup (heap (snd (lint sampleEnv (SourceString ''uint c;'') 0 False sampleWorld))) 0
     = Some (userConfig [''mixedcase''] True)
   \<and> lookup (heap (snd (lint sampleEnv (SourceString ''uint c;'') 0 False sampleWorld))) 5
     = Some ((userConfig [''mixedcase''] True)\<lparr>cfg_rules :=
         LoadedRules [(''mixedcase'', \<lparr>rc_type = Some ''error'', rc_options = None\<rparr>)]\<rparr>)"
proof -
  have "lookup (heap sampleWorld) 0 = Some (userConfig [''mixedcase''] True)"
    by (simp add: sampleWorld_def lookup_def)
  with lint_keeps_config [of sampleWorld sampleEnv "SourceString ''uint c;''" 0 False
      "userConfig [''mixedcase''] True"]
  have "lookup (heap (snd (lint sampleEnv (SourceString ''uint c;'') 0 False sampleWorld))) 0
     = Some (userConfig [''mixedcase''] True)" by blast
  moreover have "lookup (heap (snd (lint sampleEnv (SourceString ''uint c;'') 0 False sampleWorld))) 5
     = Some ((userConfig [''mixedcase''] True)\<lparr>cfg_rules :=
         LoadedRules [(''mixedcase'', \<lparr>rc_type = Some ''error'', rc_options = None\<rparr>)]\<rparr>)"
    by (simp add: lint_defs sample_defs report_defs)
  ultimately show ?thesis by blast
qed


section \<open>Rules that are refused\<close>



lemma readConfig_writeConfig:
  "readConfig v = Some cfg \<Longrightarrow> readConfig (writeConfig f v) = Some (f cfg)"
  by (auto simp: readConfig_def writeConfig_def lookup_def split: option.splits if_splits)

lemma storeRules_ok:
  assumes "readConfig v = Some cfg"
  shows "storeRules (Inr rs) v = (None, writeConfig (\<lambda>c. c\<lparr>cfg_rules := LoadedRules rs\<rparr>) v)
    \<and> readConfig (writeConfig (\<lambda>c. c\<lparr>cfg_rules := LoadedRules rs\<rparr>) v)
        = Some (cfg\<lparr>cfg_rules := LoadedRules rs\<rparr>)"
  using assms by (simp add: storeRules_def readConfig_writeConfig)












end
